theory Spec2Isabelle
  imports Complex_Main "HOL-Library.Char_ord" "HOL-Library.List_Lexorder" "HOL-Library.Multiset"
begin

section \<open>Python values\<close>

text \<open>
  The payloads handled by \<^verbatim>\<open>feddit_api/main.py\<close> are what \<^verbatim>\<open>response.json()\<close> decodes:
  \<^verbatim>\<open>None\<close>, booleans, integers, floats, strings, lists and dictionaries with string keys.
  A dictionary is an association list in insertion order with distinct keys. Strings are
  ASCII; a float is the real number it stands for.
\<close>

datatype pyval =
    PNone
  | PBool bool
  | PInt int
  | PFloat real
  | PStr string
  | PList "pyval list"
  | PDict "(string \<times> pyval) list"

text \<open>
  The exceptions that can travel through the client. \<^verbatim>\<open>HTTPException\<close> carries
  \<^verbatim>\<open>status_code\<close> and \<^verbatim>\<open>detail\<close>; \<^verbatim>\<open>KeyError\<close> carries the missing key. The message text of
  the interpreter's own \<^verbatim>\<open>TypeError\<close>, \<^verbatim>\<open>AttributeError\<close> and \<^verbatim>\<open>ValueError\<close> is not modelled.
\<close>

datatype exn =
    HTTPException nat string
  | KeyError string
  | TypeError
  | AttributeError
  | ValueError

subsection \<open>\<^verbatim>\<open>repr\<close> and \<^verbatim>\<open>str\<close>\<close>

definition digit_char :: "nat \<Rightarrow> char" where
  "digit_char d = (if d < 10 then char_of (of_char CHR ''0'' + d) else char_of (of_char CHR ''a'' + (d - 10)))"

fun nat_digits :: "nat \<Rightarrow> string" where
  "nat_digits n = (if n < 10 then [digit_char n] else nat_digits (n div 10) @ [digit_char (n mod 10)])"

declare nat_digits.simps [simp del]

definition int_repr :: "int \<Rightarrow> string" where
  "int_repr i = (if i < 0 then CHR ''-'' # nat_digits (nat (- i)) else nat_digits (nat i))"

text \<open>
  \<^verbatim>\<open>repr\<close> of a \<^verbatim>\<open>str\<close>: single quotes unless the text has a single quote and no double
  quote; the backslash, the chosen quote, tab, newline and carriage return are escaped, the
  other control characters are written \<^verbatim>\<open>\xhh\<close>.
\<close>

definition escape_char :: "char \<Rightarrow> char \<Rightarrow> string" where
  "escape_char q c =
     (if c = q \<or> c = CHR 0x5C then [CHR 0x5C, c]
      else if c = CHR 0x09 then [CHR 0x5C, CHR ''t'']
      else if c = CHR 0x0A then [CHR 0x5C, CHR ''n'']
      else if c = CHR 0x0D then [CHR 0x5C, CHR ''r'']
      else if (of_char c :: nat) < 32 \<or> (of_char c :: nat) = 127
        then [CHR 0x5C, CHR ''x'', digit_char (of_char c div 16), digit_char (of_char c mod 16)]
      else [c])"

definition str_repr :: "string \<Rightarrow> string" where
  "str_repr s =
     (let q = (if CHR 0x27 \<in> set s \<and> CHR 0x22 \<notin> set s then CHR 0x22 else CHR 0x27)
      in q # concat (map (escape_char q) s) @ [q])"

definition join :: "string \<Rightarrow> string list \<Rightarrow> string" where
  "join sep xs = (case xs of [] \<Rightarrow> [] | y # ys \<Rightarrow> y @ concat (map (\<lambda>z. sep @ z) ys))"

text \<open>The digits Python prints for a float are not modelled: the text is left unspecified.\<close>

definition float_repr :: "real \<Rightarrow> string" where
  "float_repr r = undefined r"

fun py_repr :: "pyval \<Rightarrow> string" where
  "py_repr PNone = ''None''"
| "py_repr (PBool b) = (if b then ''True'' else ''False'')"
| "py_repr (PInt i) = int_repr i"
| "py_repr (PFloat r) = float_repr r"
| "py_repr (PStr s) = str_repr s"
| "py_repr (PList xs) = ''['' @ join '', '' (map py_repr xs) @ '']''"
| "py_repr (PDict kvs) =
     ''{'' @ join '', '' (map (\<lambda>kv. str_repr (fst kv) @ '': '' @ py_repr (snd kv)) kvs) @ ''}''"

text \<open>\<^verbatim>\<open>str(e)\<close> of an exception that is not an \<^verbatim>\<open>HTTPException\<close>.\<close>

fun exn_str :: "exn \<Rightarrow> string" where
  "exn_str (KeyError k) = str_repr k"
| "exn_str (HTTPException c d) = d"
| "exn_str TypeError = ''TypeError''"
| "exn_str AttributeError = ''AttributeError''"
| "exn_str ValueError = ''ValueError''"

text \<open>\<^verbatim>\<open>str.lower()\<close> on ASCII text.\<close>

definition lower_char :: "char \<Rightarrow> char" where
  "lower_char c =
     (if (65::nat) \<le> of_char c \<and> (of_char c :: nat) \<le> 90 then char_of ((of_char c :: nat) + 32) else c)"

definition lower :: "string \<Rightarrow> string" where
  "lower s = map lower_char s"

section \<open>The request key\<close>

text \<open>
  \<^verbatim>\<open>_get_cache_key\<close> (line 88): \<^verbatim>\<open>f"{url}:{str(sorted(params.items()))}"\<close>. The parameters
  are a dictionary; \<^verbatim>\<open>sorted\<close> orders the (name, value) tuples, and as the names of a
  dictionary differ pairwise the order is decided by the names alone (a stable sort on
  the first component). \<^verbatim>\<open>str\<close> of the list prints each tuple with \<^verbatim>\<open>repr\<close>.
\<close>

type_synonym params = "(string \<times> pyval) list"

definition tuple_repr :: "string \<times> pyval \<Rightarrow> string" where
  "tuple_repr kv = ''('' @ str_repr (fst kv) @ '', '' @ py_repr (snd kv) @ '')''"

definition get_cache_key :: "string \<Rightarrow> params \<Rightarrow> string" where
  "get_cache_key url ps = url @ '':'' @ ''['' @ join '', '' (map tuple_repr (sort_key fst ps)) @ '']''"

section \<open>The cache\<close>

text \<open>
  \<^verbatim>\<open>request_cache = TTLCache(maxsize=CACHE_SIZE, ttl=CACHE_TTL)\<close> (line 39) is the
  \<^verbatim>\<open>cachetools\<close> class: a least-recently-used cache whose items also expire. The model keeps
  its items as the library's \<^verbatim>\<open>OrderedDict\<close> of links does, least recently used first, each
  with its value and the clock reading at which it expires. Values are references to
  payload objects (addresses of the store below). Clock readings are ticks of
  \<^verbatim>\<open>time.monotonic\<close>, which never decreases; with one fixed \<^verbatim>\<open>ttl\<close> the library's expiry
  chain is therefore ordered, and \<^verbatim>\<open>expire\<close> removes exactly the items whose expiry is not
  after the current reading. Every item has size 1.
\<close>

type_synonym addr = nat

record ttlcache =
  maxsize :: nat
  ttl :: nat
  links :: "(string \<times> addr \<times> nat) list"

definition new_cache :: "nat \<Rightarrow> nat \<Rightarrow> ttlcache" where
  "new_cache m life = \<lparr>maxsize = m, ttl = life, links = []\<rparr>"

text \<open>\<^verbatim>\<open>key in cache\<close>: no reordering, no removal.\<close>

definition ttl_contains :: "ttlcache \<Rightarrow> string \<Rightarrow> nat \<Rightarrow> bool" where
  "ttl_contains c k t = (case map_of (links c) k of None \<Rightarrow> False | Some (v, e) \<Rightarrow> t < e)"

definition move_to_end :: "string \<Rightarrow> (string \<times> addr \<times> nat) list \<Rightarrow> (string \<times> addr \<times> nat) list" where
  "move_to_end k es =
     (case map_of es k of None \<Rightarrow> es | Some ve \<Rightarrow> filter (\<lambda>x. fst x \<noteq> k) es @ [(k, ve)])"

text \<open>
  \<^verbatim>\<open>cache[key]\<close>: the link is fetched first, which moves the key to the most recently used
  end; an expired or missing key raises \<^verbatim>\<open>KeyError\<close>.
\<close>

definition ttl_getitem :: "ttlcache \<Rightarrow> string \<Rightarrow> nat \<Rightarrow> (exn + addr) \<times> ttlcache" where
  "ttl_getitem c k t =
     (case map_of (links c) k of
        None \<Rightarrow> (Inl (KeyError k), c)
      | Some (v, e) \<Rightarrow>
          (if t < e then Inr v else Inl (KeyError k), c\<lparr>links := move_to_end k (links c)\<rparr>))"

definition ttl_expire :: "ttlcache \<Rightarrow> nat \<Rightarrow> ttlcache" where
  "ttl_expire c t = c\<lparr>links := filter (\<lambda>x. t < snd (snd x)) (links c)\<rparr>"

text \<open>
  \<^verbatim>\<open>cache[key] = value\<close>: expired items are removed; a cache of size 0 refuses the value
  (\<^verbatim>\<open>ValueError\<close>); for a new key, \<^verbatim>\<open>popitem\<close> discards least recently used items while the
  cache is full; the item is then linked at the most recently used end with a fresh expiry.
\<close>

definition ttl_setitem :: "ttlcache \<Rightarrow> string \<Rightarrow> addr \<Rightarrow> nat \<Rightarrow> exn option \<times> ttlcache" where
  "ttl_setitem c k v t =
     (let c1 = ttl_expire c t; es = links c1
      in if maxsize c < 1 then (Some ValueError, c1)
         else
           (let kept = (if map_of es k = None then drop (Suc (length es) - maxsize c) es else es)
            in (None, c1\<lparr>links := filter (\<lambda>x. fst x \<noteq> k) kept @ [(k, v, t + ttl c)]\<rparr>)))"

section \<open>Reading payloads\<close>

definition and_then :: "exn + 'a \<Rightarrow> ('a \<Rightarrow> exn + 'b) \<Rightarrow> exn + 'b" where
  "and_then r f = (case r of Inl e \<Rightarrow> Inl e | Inr x \<Rightarrow> f x)"

text \<open>\<^verbatim>\<open>obj[key]\<close> with a string key: only a dictionary can be indexed by a string.\<close>

fun py_subscript :: "pyval \<Rightarrow> string \<Rightarrow> exn + pyval" where
  "py_subscript (PDict kvs) k = (case map_of kvs k of None \<Rightarrow> Inl (KeyError k) | Some v \<Rightarrow> Inr v)"
| "py_subscript _ k = Inl TypeError"

text \<open>\<^verbatim>\<open>obj.get(key, default)\<close>: only a dictionary has the method.\<close>

fun py_get :: "pyval \<Rightarrow> string \<Rightarrow> pyval \<Rightarrow> exn + pyval" where
  "py_get (PDict kvs) k d = Inr (case map_of kvs k of None \<Rightarrow> d | Some v \<Rightarrow> v)"
| "py_get _ k d = Inl AttributeError"

text \<open>Iteration: the items of a list, the keys of a dictionary, the characters of a string.\<close>

fun py_iter :: "pyval \<Rightarrow> exn + pyval list" where
  "py_iter (PList xs) = Inr xs"
| "py_iter (PDict kvs) = Inr (map (\<lambda>kv. PStr (fst kv)) kvs)"
| "py_iter (PStr s) = Inr (map (\<lambda>c. PStr [c]) s)"
| "py_iter _ = Inl TypeError"

fun py_lower :: "pyval \<Rightarrow> exn + string" where
  "py_lower (PStr s) = Inr (lower s)"
| "py_lower _ = Inl AttributeError"

fun truthy :: "pyval \<Rightarrow> bool" where
  "truthy PNone = False"
| "truthy (PBool b) = b"
| "truthy (PInt i) = (i \<noteq> 0)"
| "truthy (PFloat r) = (r \<noteq> 0)"
| "truthy (PStr s) = (s \<noteq> [])"
| "truthy (PList xs) = (xs \<noteq> [])"
| "truthy (PDict kvs) = (kvs \<noteq> [])"

text \<open>\<^verbatim>\<open>d[k] = v\<close> on a dictionary: an existing key keeps its place, a new key goes last.\<close>

fun dict_set :: "(string \<times> pyval) list \<Rightarrow> string \<Rightarrow> pyval \<Rightarrow> (string \<times> pyval) list" where
  "dict_set [] k v = [(k, v)]"
| "dict_set (kv # kvs) k v = (if fst kv = k then (k, v) # kvs else kv # dict_set kvs k v)"

section \<open>The client\<close>

text \<open>
  What the awaited \<^verbatim>\<open>self.client.get(url, params=params)\<close> of line 110 and the two calls
  after it can do: \<^verbatim>\<open>get\<close> raises a request error (the network failed) or a timeout,
  or a response arrives with a status code; \<^verbatim>\<open>raise_for_status()\<close> raises for a status
  outside 200..299; \<^verbatim>\<open>json()\<close> decodes the body or raises \<^verbatim>\<open>ValueError\<close>. The three
  \<^verbatim>\<open>httpx\<close> exceptions are subclasses of \<^verbatim>\<open>httpx.HTTPError\<close>; the string is \<^verbatim>\<open>str(e)\<close>
  (for a response: the text of the status error).
\<close>

datatype body = Undecodable | Decoded pyval

datatype outcome =
    RequestError string
  | TimeoutException string
  | Response nat string body

text \<open>
  The shared state of the process: the monotonic clock, the module's \<^verbatim>\<open>request_cache\<close>,
  the keys of the client's \<^verbatim>\<open>_request_locks\<close> dictionary, the store of payload objects,
  the lines written by \<^verbatim>\<open>logger.error\<close>, and the GET requests handed to \<^verbatim>\<open>httpx\<close> so far.

  The store holds one object per decoded response, at the address the cache and the
  callers refer to it by: \<^verbatim>\<open>_make_request\<close> returns the very object it caches
  (\<^verbatim>\<open>request_cache[cache_key] = data; return data\<close>, and \<^verbatim>\<open>return request_cache[cache_key]\<close>),
  so a caller that changes the object changes what the cache holds. Inside one decoded
  response nothing is shared, so an object is a tree.
\<close>

record state =
  now :: nat
  request_cache :: ttlcache
  request_locks :: "string list"
  store :: "pyval list"
  log :: "string list"
  sent :: "(string \<times> params) list"

text \<open>Addresses come from the cache and always point into the store, which only grows.\<close>

definition deref :: "state \<Rightarrow> addr \<Rightarrow> pyval" where
  "deref st a = (if a < length (store st) then store st ! a else PNone)"

text \<open>Lines 102-103 and again 106-107: \<^verbatim>\<open>if cache_key in request_cache: return request_cache[cache_key]\<close>.\<close>

definition cached_lookup :: "string \<Rightarrow> state \<Rightarrow> (exn + addr) option \<times> state" where
  "cached_lookup key st =
     (if ttl_contains (request_cache st) key (now st)
      then (let rc = ttl_getitem (request_cache st) key (now st)
            in (Some (fst rc), st\<lparr>request_cache := snd rc\<rparr>))
      else (None, st))"

text \<open>\<^verbatim>\<open>_get_request_lock\<close> (lines 92-96): the lock of a key is created on first use and kept.\<close>

definition get_request_lock :: "string \<Rightarrow> state \<Rightarrow> state" where
  "get_request_lock key st =
     (if key \<in> set (request_locks st) then st else st\<lparr>request_locks := request_locks st @ [key]\<rparr>)"

text \<open>Line 110: the request is handed to \<^verbatim>\<open>httpx\<close>.\<close>

definition send_get :: "string \<Rightarrow> params \<Rightarrow> state \<Rightarrow> state" where
  "send_get url ps st = st\<lparr>sent := sent st @ [(url, ps)]\<rparr>"

text \<open>Lines 115-118: the handler of \<^verbatim>\<open>httpx.HTTPError\<close>.\<close>

definition request_failed :: "string \<Rightarrow> string \<Rightarrow> state \<Rightarrow> (exn + addr) \<times> state" where
  "request_failed url msg st =
     (Inl (HTTPException 500 msg),
      st\<lparr>log := log st @ [''Error making request to '' @ url @ '': '' @ msg]\<rparr>)"

definition is_success :: "nat \<Rightarrow> bool" where
  "is_success code = (200 \<le> code \<and> code \<le> 299)"

text \<open>
  Lines 110-118, from the moment the awaited GET completes: the decoded payload becomes a
  new object of the store, is put into the cache and returned. A \<^verbatim>\<open>ValueError\<close> (from
  \<^verbatim>\<open>json()\<close>, or from a cache of size 0) is not an \<^verbatim>\<open>httpx.HTTPError\<close> and leaves uncaught.
\<close>

definition receive :: "string \<Rightarrow> params \<Rightarrow> outcome \<Rightarrow> state \<Rightarrow> (exn + addr) \<times> state" where
  "receive url ps out st =
     (case out of
        RequestError msg \<Rightarrow> request_failed url msg st
      | TimeoutException msg \<Rightarrow> request_failed url msg st
      | Response code msg b \<Rightarrow>
          (if \<not> is_success code then request_failed url msg st
           else
             (case b of
                Undecodable \<Rightarrow> (Inl ValueError, st)
              | Decoded v \<Rightarrow>
                  (let a = length (store st);
                       st1 = st\<lparr>store := store st @ [v]\<rparr>;
                       rc = ttl_setitem (request_cache st1) (get_cache_key url ps) a (now st1);
                       st2 = st1\<lparr>request_cache := snd rc\<rparr>
                   in (case fst rc of Some e \<Rightarrow> (Inl e, st2) | None \<Rightarrow> (Inr a, st2))))))"

text \<open>
  The upstream service, seen from one caller at a time: given the GET requests sent so
  far (the current one last) it tells how many clock ticks the answer takes and what the
  answer is.
\<close>

type_synonym upstream = "(string \<times> params) list \<Rightarrow> nat \<times> outcome"

text \<open>
  \<^verbatim>\<open>_make_request\<close> (lines 98-118) run by a single caller with no other task active: the
  lock of the key is free, so \<^verbatim>\<open>async with\<close> acquires it without suspending and the
  re-check of line 106 reads the cache at the same clock reading as line 102; the clock
  advances while the GET is awaited; the lock is released on every way out.
\<close>

definition make_request :: "upstream \<Rightarrow> string \<Rightarrow> params \<Rightarrow> state \<Rightarrow> (exn + addr) \<times> state" where
  "make_request up url ps st =
     (let key = get_cache_key url ps
      in (case cached_lookup key st of
            (Some r, st1) \<Rightarrow> (r, st1)
          | (None, st1) \<Rightarrow>
              (case cached_lookup key (get_request_lock key st1) of
                 (Some r, st2) \<Rightarrow> (r, st2)
               | (None, st2) \<Rightarrow>
                   (let st3 = send_get url ps st2; ans = up (sent st3)
                    in receive url ps (snd ans) (st3\<lparr>now := now st3 + fst ans\<rparr>)))))"

text \<open>
  The generator of lines 128-131 under \<^verbatim>\<open>next(..., None)\<close>: the first item whose
  lower-cased title equals the lower-cased name, \<^verbatim>\<open>None\<close> when there is none; an item
  reached by the search that has no \<^verbatim>\<open>title\<close>, or whose title is not a string, raises.
\<close>

fun find_subfeddit :: "pyval list \<Rightarrow> string \<Rightarrow> exn + pyval" where
  "find_subfeddit [] name = Inr PNone"
| "find_subfeddit (s # ss) name =
     and_then (py_subscript s ''title'') (\<lambda>t.
     and_then (py_lower t) (\<lambda>l.
       if l = lower name then Inr s else find_subfeddit ss name))"

definition not_found :: "string \<Rightarrow> exn" where
  "not_found name = HTTPException 404 (''Subfeddit with name '' @ [CHR 0x27] @ name @ [CHR 0x27] @ '' not found'')"

text \<open>Lines 125-140 between the two requests: from the listing payload to the id to ask for.\<close>

definition choose_id :: "pyval \<Rightarrow> string \<Rightarrow> exn + pyval" where
  "choose_id subfeddits_data name =
     and_then (py_get subfeddits_data ''subfeddits'' (PList [])) (\<lambda>subfeddits.
     and_then (py_iter subfeddits) (\<lambda>items.
     and_then (find_subfeddit items name) (\<lambda>subfeddit.
       if \<not> truthy subfeddit then Inl (not_found name) else py_subscript subfeddit ''id'')))"

text \<open>
  The \<^verbatim>\<open>except\<close> clauses of lines 142-147 (and 228-233): an \<^verbatim>\<open>HTTPException\<close> is raised
  again as it is, any other exception is logged and becomes a status 500.
\<close>

definition reraise :: "string \<Rightarrow> exn \<Rightarrow> state \<Rightarrow> exn \<times> state" where
  "reraise prefix e st =
     (case e of
        HTTPException c d \<Rightarrow> (e, st)
      | _ \<Rightarrow> (HTTPException 500 (exn_str e), st\<lparr>log := log st @ [prefix @ exn_str e]\<rparr>))"

definition raise_from :: "string \<Rightarrow> exn \<Rightarrow> state \<Rightarrow> (exn + 'a) \<times> state" where
  "raise_from prefix e st = (Inl (fst (reraise prefix e st)), snd (reraise prefix e st))"

text \<open>\<^verbatim>\<open>get_subfeddit_by_name\<close> (lines 120-147).\<close>

definition get_subfeddit_by_name :: "upstream \<Rightarrow> string \<Rightarrow> state \<Rightarrow> (exn + addr) \<times> state" where
  "get_subfeddit_by_name up name st =
     (case make_request up ''/api/v1/subfeddits/'' [(''limit'', PInt 100)] st of
        (Inl e, st1) \<Rightarrow> raise_from ''Error finding subfeddit by name: '' e st1
      | (Inr a, st1) \<Rightarrow>
          (case choose_id (deref st1 a) name of
             Inl e \<Rightarrow> raise_from ''Error finding subfeddit by name: '' e st1
           | Inr i \<Rightarrow>
               (case make_request up ''/api/v1/subfeddit/'' [(''subfeddit_id'', i)] st1 of
                  (Inl e, st2) \<Rightarrow> raise_from ''Error finding subfeddit by name: '' e st2
                | (Inr b, st2) \<Rightarrow> (Inr b, st2))))"

text \<open>\<^verbatim>\<open>get_comments\<close> (lines 149-154).\<close>

definition get_comments :: "upstream \<Rightarrow> pyval \<Rightarrow> int \<Rightarrow> int \<Rightarrow> state \<Rightarrow> (exn + addr) \<times> state" where
  "get_comments up subfeddit_id limit skip st =
     make_request up ''/api/v1/comments/''
       [(''subfeddit_id'', subfeddit_id), (''limit'', PInt limit), (''skip'', PInt skip)] st"

section \<open>The comments handler\<close>

text \<open>
  \<^verbatim>\<open>analyze_sentiment\<close> (lines 65-70). The polarity that \<^verbatim>\<open>TextBlob\<close> gives a text is a
  parameter of the model; \<^verbatim>\<open>TextBlob\<close> refuses anything but a string.
\<close>

record sentiment_analysis =
  polarity :: real
  classification :: string

definition analyze_sentiment :: "(string \<Rightarrow> real) \<Rightarrow> string \<Rightarrow> sentiment_analysis" where
  "analyze_sentiment textblob text =
     (let p = textblob text
      in \<lparr>polarity = p,
          classification = (if p > 0 then ''positive'' else if p < 0 then ''negative'' else ''neutral'')\<rparr>)"

definition sentiment_dict :: "sentiment_analysis \<Rightarrow> pyval" where
  "sentiment_dict sa = PDict [(''polarity'', PFloat (polarity sa)), (''classification'', PStr (classification sa))]"

text \<open>\<^verbatim>\<open>obj[key] = value\<close> on a payload object.\<close>

fun py_setitem :: "pyval \<Rightarrow> string \<Rightarrow> pyval \<Rightarrow> exn + pyval" where
  "py_setitem (PDict kvs) k v = Inr (PDict (dict_set kvs k v))"
| "py_setitem _ k v = Inl TypeError"

text \<open>
  The loop of lines 196-198 over the items of a list. It changes each comment in place,
  so when an item raises, the items before it keep their new \<^verbatim>\<open>sentiment\<close>.
\<close>

fun add_sentiment :: "(string \<Rightarrow> real) \<Rightarrow> pyval list \<Rightarrow> pyval list \<times> exn option" where
  "add_sentiment textblob [] = ([], None)"
| "add_sentiment textblob (comment # rest) =
     (case py_subscript comment ''text'' of
        Inl e \<Rightarrow> (comment # rest, Some e)
      | Inr (PStr text) \<Rightarrow>
          (case py_setitem comment ''sentiment'' (sentiment_dict (analyze_sentiment textblob text)) of
             Inl e \<Rightarrow> (comment # rest, Some e)
           | Inr comment' \<Rightarrow>
               (let r = add_sentiment textblob rest in (comment' # fst r, snd r)))
      | Inr _ \<Rightarrow> (comment # rest, Some TypeError))"

text \<open>The list comprehension of lines 202-205.\<close>

fun keep_classified :: "string \<Rightarrow> pyval list \<Rightarrow> exn + pyval list" where
  "keep_classified wanted [] = Inr []"
| "keep_classified wanted (comment # rest) =
     and_then (py_subscript comment ''sentiment'') (\<lambda>s.
     and_then (py_subscript s ''classification'') (\<lambda>c.
     and_then (keep_classified wanted rest) (\<lambda>kept.
       Inr (if c = PStr wanted then comment # kept else kept))))"

text \<open>
  \<^verbatim>\<open>list.sort(key=..., reverse=...)\<close> (lines 211-219). The keys are computed first; a key
  that raises leaves the list as it was. Numbers compare by value and strings by their
  characters; the sort is stable, also when reversed. Keys of other or of mixed types
  are reported as the \<^verbatim>\<open>TypeError\<close> their comparison raises in the usual case (the order
  in which CPython then leaves the list is not modelled).
\<close>

fun sort_keys :: "pyval list \<Rightarrow> (pyval \<Rightarrow> exn + pyval) \<Rightarrow> exn + pyval list" where
  "sort_keys [] f = Inr []"
| "sort_keys (x # xs) f = and_then (f x) (\<lambda>k. and_then (sort_keys xs f) (\<lambda>ks. Inr (k # ks)))"

fun number_of :: "pyval \<Rightarrow> real option" where
  "number_of (PInt i) = Some (of_int i)"
| "number_of (PFloat r) = Some r"
| "number_of (PBool b) = Some (if b then 1 else 0)"
| "number_of _ = None"

fun text_of :: "pyval \<Rightarrow> string option" where
  "text_of (PStr s) = Some s"
| "text_of _ = None"

definition stable_sort :: "('k::linorder) list \<Rightarrow> 'a list \<Rightarrow> bool \<Rightarrow> 'a list" where
  "stable_sort ks xs reverse =
     (if reverse then rev (map snd (sort_key fst (rev (zip ks xs))))
      else map snd (sort_key fst (zip ks xs)))"

definition list_sort :: "pyval list \<Rightarrow> (pyval \<Rightarrow> exn + pyval) \<Rightarrow> bool \<Rightarrow> exn + pyval list" where
  "list_sort xs f reverse =
     and_then (sort_keys xs f) (\<lambda>ks.
       if length xs < 2 then Inr xs
       else if list_all (\<lambda>k. number_of k \<noteq> None) ks
         then Inr (stable_sort (map (\<lambda>k. the (number_of k)) ks) xs reverse)
       else if list_all (\<lambda>k. text_of k \<noteq> None) ks
         then Inr (stable_sort (map (\<lambda>k. the (text_of k)) ks) xs reverse)
       else Inl TypeError)"

definition option_val :: "string option \<Rightarrow> pyval" where
  "option_val x = (case x of None \<Rightarrow> PNone | Some s \<Rightarrow> PStr s)"

definition given :: "string option \<Rightarrow> bool" where
  "given x = (case x of None \<Rightarrow> False | Some s \<Rightarrow> s \<noteq> [])"

text \<open>
  Lines 196-225 as they act on the object \<^verbatim>\<open>comments_data\<close>: the object as the handler
  leaves it, and the exception if one was raised on the way.
\<close>

definition step_sentiment :: "(string \<Rightarrow> real) \<Rightarrow> pyval \<Rightarrow> pyval \<times> exn option" where
  "step_sentiment textblob d =
     (case py_subscript d ''comments'' of
        Inl e \<Rightarrow> (d, Some e)
      | Inr comments \<Rightarrow>
          (case py_iter comments of
             Inl e \<Rightarrow> (d, Some e)
           | Inr items \<Rightarrow>
               (let r = add_sentiment textblob items
                in (case comments of
                      PList xs \<Rightarrow> (case py_setitem d ''comments'' (PList (fst r)) of Inl e \<Rightarrow> (d, Some e) | Inr d' \<Rightarrow> (d', snd r))
                    | _ \<Rightarrow> (d, snd r)))))"

definition step_filter :: "string option \<Rightarrow> pyval \<Rightarrow> pyval \<times> exn option" where
  "step_filter filter_by d =
     (if \<not> given filter_by then (d, None)
      else
        (case and_then (py_subscript d ''comments'') (\<lambda>comments.
              and_then (py_iter comments) (\<lambda>items.
              and_then (keep_classified (the filter_by) items) (\<lambda>kept.
                py_setitem d ''comments'' (PList kept)))) of
           Inl e \<Rightarrow> (d, Some e)
         | Inr d' \<Rightarrow> (d', None)))"

definition sort_in_place :: "pyval \<Rightarrow> (pyval \<Rightarrow> exn + pyval) \<Rightarrow> bool \<Rightarrow> pyval \<times> exn option" where
  "sort_in_place d f reverse =
     (case and_then (py_subscript d ''comments'') (\<lambda>comments.
           (case comments of
              PList xs \<Rightarrow> and_then (list_sort xs f reverse) (\<lambda>ys. py_setitem d ''comments'' (PList ys))
            | _ \<Rightarrow> Inl AttributeError)) of
        Inl e \<Rightarrow> (d, Some e)
      | Inr d' \<Rightarrow> (d', None))"

definition step_sort :: "string option \<Rightarrow> string option \<Rightarrow> pyval \<Rightarrow> pyval \<times> exn option" where
  "step_sort sort_by sort_order d =
     (if \<not> given sort_by then (d, None)
      else
        (let reverse = (sort_order = Some ''desc'')
         in if sort_by = Some ''polarity''
              then sort_in_place d (\<lambda>x. and_then (py_subscript x ''sentiment'') (\<lambda>s. py_subscript s ''polarity'')) reverse
            else if sort_by = Some ''created_at''
              then sort_in_place d (\<lambda>x. py_subscript x ''created_at'') reverse
            else (d, None)))"

definition step_labels :: "string \<Rightarrow> string option \<Rightarrow> string option \<Rightarrow> string option \<Rightarrow> pyval \<Rightarrow> pyval \<times> exn option" where
  "step_labels name sort_by sort_order filter_by d =
     (case and_then (py_setitem d ''subfeddit_name'' (PStr name)) (\<lambda>d1.
           and_then (py_setitem d1 ''sort_by'' (option_val sort_by)) (\<lambda>d2.
           and_then (py_setitem d2 ''sort_order'' (option_val sort_order)) (\<lambda>d3.
             py_setitem d3 ''filter_by'' (option_val filter_by)))) of
        Inl e \<Rightarrow> (d, Some e)
      | Inr d' \<Rightarrow> (d', None))"

definition thereafter :: "pyval \<times> exn option \<Rightarrow> (pyval \<Rightarrow> pyval \<times> exn option) \<Rightarrow> pyval \<times> exn option" where
  "thereafter r f = (case snd r of Some e \<Rightarrow> r | None \<Rightarrow> f (fst r))"

definition enrich :: "(string \<Rightarrow> real) \<Rightarrow> string \<Rightarrow> string option \<Rightarrow> string option \<Rightarrow> string option
    \<Rightarrow> pyval \<Rightarrow> pyval \<times> exn option" where
  "enrich textblob name sort_by sort_order filter_by d =
     thereafter (thereafter (thereafter (step_sentiment textblob d)
       (step_filter filter_by)) (step_sort sort_by sort_order)) (step_labels name sort_by sort_order filter_by)"

text \<open>
  \<^verbatim>\<open>get_subfeddit_comments\<close> (lines 178-233) up to line 225: what leaves the handler is
  the address of \<^verbatim>\<open>comments_data\<close>, the object from which line 227 builds the response
  model (the validation done there is not modelled). The handler works on the object that
  \<^verbatim>\<open>get_comments\<close> returned, which is the object the cache holds.
\<close>

definition get_subfeddit_comments :: "(string \<Rightarrow> real) \<Rightarrow> upstream \<Rightarrow> string \<Rightarrow> int \<Rightarrow> int
    \<Rightarrow> string option \<Rightarrow> string option \<Rightarrow> string option \<Rightarrow> state \<Rightarrow> (exn + addr) \<times> state" where
  "get_subfeddit_comments textblob up name limit skip sort_by sort_order filter_by st =
     (case get_subfeddit_by_name up name st of
        (Inl e, st1) \<Rightarrow> raise_from ''Error getting subfeddit comments: '' e st1
      | (Inr a, st1) \<Rightarrow>
          (case py_subscript (deref st1 a) ''id'' of
             Inl e \<Rightarrow> raise_from ''Error getting subfeddit comments: '' e st1
           | Inr subfeddit_id \<Rightarrow>
               (case get_comments up subfeddit_id limit skip st1 of
                  (Inl e, st2) \<Rightarrow> raise_from ''Error getting subfeddit comments: '' e st2
                | (Inr b, st2) \<Rightarrow>
                    (let r = enrich textblob name sort_by sort_order filter_by (deref st2 b);
                         st3 = st2\<lparr>store := (store st2)[b := fst r]\<rparr>
                     in (case snd r of
                           Some e \<Rightarrow> raise_from ''Error getting subfeddit comments: '' e st3
                         | None \<Rightarrow> (Inr b, st3))))))"

section \<open>Concurrent callers\<close>

text \<open>
  The callers are \<^verbatim>\<open>asyncio\<close> tasks on one event loop: a task runs alone until it
  suspends, and it suspends in \<^verbatim>\<open>_make_request\<close> at two places only, in
  \<^verbatim>\<open>async with\<close> when the lock of its key is taken (line 105) and in
  \<^verbatim>\<open>await self.client.get\<close> (line 110). \<^verbatim>\<open>_get_request_lock\<close> has no \<^verbatim>\<open>await\<close> inside and
  runs without suspension. A task is therefore at one of four points.
\<close>

datatype progress = Ready | Waiting | Fetching | Finished "exn + addr"

record task =
  t_url :: string
  t_params :: params
  progress :: progress

text \<open>
  The system: the shared state, which task holds the lock of which key, the tasks
  suspended in \<^verbatim>\<open>acquire()\<close> (longest wait first, with their key), and the tasks.
  \<^verbatim>\<open>asyncio.Lock.release()\<close> wakes the first waiter, and no other task can take the lock
  before the woken one runs: the lock passes to the first waiter.
\<close>

record sys =
  shared :: state
  holders :: "(string \<times> nat) list"
  waiting :: "(string \<times> nat) list"
  tasks :: "task list"

definition task_key :: "sys \<Rightarrow> nat \<Rightarrow> string" where
  "task_key s i = get_cache_key (t_url (tasks s ! i)) (t_params (tasks s ! i))"

definition set_progress :: "nat \<Rightarrow> progress \<Rightarrow> sys \<Rightarrow> sys" where
  "set_progress i p s = s\<lparr>tasks := (tasks s)[i := (tasks s ! i)\<lparr>progress := p\<rparr>]\<rparr>"

definition release :: "string \<Rightarrow> sys \<Rightarrow> sys" where
  "release key s =
     (case filter (\<lambda>w. fst w = key) (waiting s) of
        [] \<Rightarrow> s\<lparr>holders := filter (\<lambda>h. fst h \<noteq> key) (holders s)\<rparr>
      | w # ws \<Rightarrow>
          s\<lparr>holders := (key, snd w) # filter (\<lambda>h. fst h \<noteq> key) (holders s),
            waiting := remove1 w (waiting s)\<rparr>)"

text \<open>Lines 106-110, run by the task that holds the lock of its key.\<close>

definition under_lock :: "nat \<Rightarrow> sys \<Rightarrow> sys" where
  "under_lock i s =
     (case cached_lookup (task_key s i) (shared s) of
        (Some r, sh) \<Rightarrow> release (task_key s i) (set_progress i (Finished r) (s\<lparr>shared := sh\<rparr>))
      | (None, sh) \<Rightarrow>
          set_progress i Fetching
            (s\<lparr>shared := send_get (t_url (tasks s ! i)) (t_params (tasks s ! i)) sh\<rparr>))"

text \<open>Lines 100-105, and on without suspension when the lock is free.\<close>

definition start_task :: "nat \<Rightarrow> sys \<Rightarrow> sys" where
  "start_task i s =
     (case cached_lookup (task_key s i) (shared s) of
        (Some r, sh) \<Rightarrow> set_progress i (Finished r) (s\<lparr>shared := sh\<rparr>)
      | (None, sh) \<Rightarrow>
          (let s1 = s\<lparr>shared := get_request_lock (task_key s i) sh\<rparr>
           in if map_of (holders s1) (task_key s i) = None
              then under_lock i (s1\<lparr>holders := (task_key s i, i) # holders s1\<rparr>)
              else set_progress i Waiting (s1\<lparr>waiting := waiting s1 @ [(task_key s i, i)]\<rparr>)))"

text \<open>Lines 110-118 when the awaited GET of task \<open>i\<close> completes; the lock is released on the way out.\<close>

definition complete :: "nat \<Rightarrow> outcome \<Rightarrow> sys \<Rightarrow> sys" where
  "complete i out s =
     (let rs = receive (t_url (tasks s ! i)) (t_params (tasks s ! i)) out (shared s)
      in release (task_key s i) (set_progress i (Finished (fst rs)) (s\<lparr>shared := snd rs\<rparr>)))"

text \<open>
  What can happen next: the clock advances, the event loop runs a task that is ready or
  that was given the lock, or the GET of a fetching task completes.
\<close>

datatype event = Tick nat | Run nat | Deliver nat outcome

definition fire :: "event \<Rightarrow> sys \<Rightarrow> sys option" where
  "fire ev s =
     (case ev of
        Tick d \<Rightarrow> Some (s\<lparr>shared := (shared s)\<lparr>now := now (shared s) + d\<rparr>\<rparr>)
      | Run i \<Rightarrow>
          (if i < length (tasks s)
           then (case progress (tasks s ! i) of
                   Ready \<Rightarrow> Some (start_task i s)
                 | Waiting \<Rightarrow>
                     (if map_of (holders s) (task_key s i) = Some i then Some (under_lock i s) else None)
                 | Fetching \<Rightarrow> None
                 | Finished r \<Rightarrow> None)
           else None)
      | Deliver i out \<Rightarrow>
          (if i < length (tasks s) \<and> progress (tasks s ! i) = Fetching then Some (complete i out s)
           else None))"

fun run :: "event list \<Rightarrow> sys \<Rightarrow> sys option" where
  "run [] s = Some s"
| "run (ev # evs) s = (case fire ev s of None \<Rightarrow> None | Some s' \<Rightarrow> run evs s')"


definition all_finished :: "sys \<Rightarrow> bool" where
  "all_finished s = list_all (\<lambda>t. case progress t of Finished r \<Rightarrow> True | _ \<Rightarrow> False) (tasks s)"

definition succeeds :: "event \<Rightarrow> bool" where
  "succeeds ev =
     (case ev of
        Deliver i out \<Rightarrow>
          (case out of Response code msg b \<Rightarrow> is_success code \<and> b \<noteq> Undecodable | _ \<Rightarrow> False)
      | _ \<Rightarrow> True)"

text \<open>
  The state of a fresh process (lines 39 and 85): an empty cache of the configured size
  and time-to-live, no locks, nothing fetched, logged or sent.
\<close>

definition initial_state :: "nat \<Rightarrow> nat \<Rightarrow> state" where
  "initial_state cap life =
     \<lparr>now = 0, request_cache = new_cache cap life, request_locks = [], store = [], log = [], sent = []\<rparr>"

section \<open>Notions used by the statements\<close>



text \<open>
  An upstream for the examples, after section 8 of the specification and the fixtures of
  \<^verbatim>\<open>tests/test_api.py\<close>: one subfeddit, Cooking with id 1, and two comments on it. Every
  answer takes one tick.
\<close>

definition cooking_listing :: pyval where
  "cooking_listing = PDict [(''subfeddits'', PList [PDict [(''id'', PInt 1), (''title'', PStr ''Cooking'')]])]"

definition cooking_detail :: pyval where
  "cooking_detail = PDict [(''id'', PInt 1), (''title'', PStr ''Cooking''), (''description'', PStr ''Recipes'')]"

definition cooking_comments :: pyval where
  "cooking_comments =
     PDict [(''subfeddit_id'', PInt 1), (''limit'', PInt 25), (''skip'', PInt 0),
            (''comments'', PList
               [PDict [(''id'', PInt 1), (''username'', PStr ''user1''),
                       (''text'', PStr ''This is a great comment!''), (''created_at'', PInt 100)],
                PDict [(''id'', PInt 2), (''username'', PStr ''user2''),
                       (''text'', PStr ''This is a terrible comment.''), (''created_at'', PInt 200)]])]"

definition example_upstream :: upstream where
  "example_upstream reqs =
     (if fst (last reqs) = ''/api/v1/subfeddits/'' then (1, Response 200 '''' (Decoded cooking_listing))
      else if fst (last reqs) = ''/api/v1/subfeddit/'' then (1, Response 200 '''' (Decoded cooking_detail))
      else (1, Response 200 '''' (Decoded cooking_comments)))"

definition example_textblob :: "string \<Rightarrow> real" where
  "example_textblob text =
     (if text = ''This is a great comment!'' then 1
      else if text = ''This is a terrible comment.'' then - 1 else 0)"

text \<open>
  A caller that fetches one request after the other, each after some ticks of waiting:
  the state after the whole series. An upstream that answers every request with a decoded
  payload and a status in 200..299.
\<close>

definition request_key :: "nat \<times> string \<times> params \<Rightarrow> string" where
  "request_key r = get_cache_key (fst (snd r)) (snd (snd r))"

fun fetches :: "upstream \<Rightarrow> (nat \<times> string \<times> params) list \<Rightarrow> state \<Rightarrow> state" where
  "fetches up [] st = st"
| "fetches up (r # rs) st =
     fetches up rs (snd (make_request up (fst (snd r)) (snd (snd r)) (st\<lparr>now := now st + fst r\<rparr>)))"

definition always_answers :: "upstream \<Rightarrow> bool" where
  "always_answers up =
     (\<forall>reqs. \<exists>code msg v. snd (up reqs) = Response code msg (Decoded v) \<and> is_success code)"

text \<open>The shape of every cache the program can reach: pairwise different keys, and no more
  items than its size.\<close>

definition cache_ok :: "ttlcache \<Rightarrow> bool" where
  "cache_ok c = (distinct (map fst (links c)) \<and> length (links c) \<le> maxsize c)"

text \<open>
  The invariant behind the deduplication of \<open>n\<close> concurrent fetches of one request, started
  on the state \<open>st0\<close> in which the key has no valid entry. The system is in one of three
  phases. Before the GET: nothing was sent, the cache is as it was, every task is ready.
  While the GET is in flight: one request was sent, the cache is as it was, the fetching
  task holds the lock, the others are ready or waiting. After the GET: one request was
  sent, the cache holds an entry for the key that outlives the deadline, nobody fetches,
  every finished task returned the address of that entry, and the lock is free or was
  passed to a waiting task. Throughout, the waiting list holds exactly the waiting tasks
  that were not given the lock.
\<close>

definition before_get :: "state \<Rightarrow> sys \<Rightarrow> bool" where
  "before_get st0 s =
     (sent (shared s) = sent st0 \<and> links (request_cache (shared s)) = links (request_cache st0)
      \<and> holders s = [] \<and> waiting s = []
      \<and> (\<forall>j<length (tasks s). progress (tasks s ! j) = Ready))"

definition during_get :: "string \<Rightarrow> params \<Rightarrow> state \<Rightarrow> sys \<Rightarrow> bool" where
  "during_get url ps st0 s =
     (sent (shared s) = sent st0 @ [(url, ps)]
      \<and> links (request_cache (shared s)) = links (request_cache st0)
      \<and> (\<exists>i<length (tasks s). holders s = [(get_cache_key url ps, i)]
            \<and> progress (tasks s ! i) = Fetching
            \<and> (\<forall>j<length (tasks s). j \<noteq> i \<longrightarrow>
                  progress (tasks s ! j) = Ready \<or> progress (tasks s ! j) = Waiting)))"

definition after_get :: "string \<Rightarrow> params \<Rightarrow> state \<Rightarrow> sys \<Rightarrow> bool" where
  "after_get url ps st0 s =
     (sent (shared s) = sent st0 @ [(url, ps)]
      \<and> (\<exists>a e. map_of (links (request_cache (shared s))) (get_cache_key url ps) = Some (a, e)
            \<and> now st0 + ttl (request_cache st0) \<le> e
            \<and> (\<forall>j<length (tasks s). progress (tasks s ! j) = Ready \<or> progress (tasks s ! j) = Waiting
                  \<or> progress (tasks s ! j) = Finished (Inr a)))
      \<and> ((holders s = [] \<and> waiting s = [])
          \<or> (\<exists>w<length (tasks s). holders s = [(get_cache_key url ps, w)]
                \<and> progress (tasks s ! w) = Waiting)))"

definition dedup_inv :: "string \<Rightarrow> params \<Rightarrow> state \<Rightarrow> sys \<Rightarrow> bool" where
  "dedup_inv url ps st0 s =
     ((\<forall>j<length (tasks s). t_url (tasks s ! j) = url \<and> t_params (tasks s ! j) = ps)
      \<and> maxsize (request_cache (shared s)) = maxsize (request_cache st0)
      \<and> ttl (request_cache (shared s)) = ttl (request_cache st0)
      \<and> now st0 \<le> now (shared s)
      \<and> distinct (waiting s)
      \<and> (\<forall>w\<in>set (waiting s). fst w = get_cache_key url ps \<and> snd w < length (tasks s)
            \<and> progress (tasks s ! snd w) = Waiting
            \<and> map_of (holders s) (get_cache_key url ps) \<noteq> Some (snd w))
      \<and> (\<forall>j<length (tasks s). progress (tasks s ! j) = Waiting \<longrightarrow>
            map_of (holders s) (get_cache_key url ps) = Some j
            \<or> (get_cache_key url ps, j) \<in> set (waiting s))
      \<and> (before_get st0 s \<or> during_get url ps st0 s \<or> after_get url ps st0 s))"

section \<open>Verification\<close>

subsection \<open>The request key does not depend on the order of the parameters\<close>

lemma filter_key_none:
  "fst z \<notin> fst ` set zs \<Longrightarrow> filter (\<lambda>x. fst z = fst x) zs = []"
  by (induction zs) auto

lemma filter_key_single:
  "distinct (map fst zs) \<Longrightarrow> k \<in> set zs \<Longrightarrow> filter (\<lambda>x. fst k = fst x) zs = [k]"
proof (induction zs)
  case Nil
  then show ?case by simp
next
  case (Cons z zs)
  show ?case
  proof (cases "k = z")
    case True
    then show ?thesis using Cons.prems(1) by (simp add: filter_key_none)
  next
    case False
    then have kin: "k \<in> set zs" using Cons.prems(2) by simp
    then have "fst k \<in> set (map fst zs)" by simp
    moreover have "fst z \<notin> set (map fst zs)" using Cons.prems(1) by simp
    ultimately have "fst k \<noteq> fst z" by metis
    then show ?thesis using Cons.IH kin Cons.prems(1) by simp
  qed
qed

lemma sort_key_fst_unique:
  assumes "distinct (map fst xs)" "distinct (map fst ys)" "set xs = set ys"
  shows "sort_key fst xs = sort_key fst ys"
proof (rule properties_for_sort_key)
  have dx: "distinct xs" and dy: "distinct ys" using assms(1,2) by (auto simp: distinct_map)
  show "mset (sort_key fst ys) = mset xs"
    using dx dy assms(3) by (simp add: set_eq_iff_mset_eq_distinct)
  show "sorted (map fst (sort_key fst ys))" by simp
  fix k assume "k \<in> set (sort_key fst ys)"
  then have ky: "k \<in> set ys" by simp
  then have kx: "k \<in> set xs" using assms(3) by simp
  have ds: "distinct (map fst (sort_key fst ys))"
    using assms(2) by (metis distinct_map distinct_sort set_sort)
  have "filter (\<lambda>x. fst k = fst x) (sort_key fst ys) = [k]"
    using ds ky by (simp add: filter_key_single)
  then show "filter (\<lambda>x. fst k = fst x) (sort_key fst ys) = filter (\<lambda>x. fst k = fst x) xs"
    using assms(1) kx by (simp add: filter_key_single)
qed

text \<open>
  Claim C4. Two parameter dictionaries (names pairwise different) that hold the same
  name-value pairs, in whatever order they were built, give the same request key for the
  same path, and therefore the same answer from every cache lookup.
\<close>

theorem cache_key_order_independent:
  assumes "distinct (map fst ps)" and "distinct (map fst qs)" and "set ps = set qs"
  shows "get_cache_key url ps = get_cache_key url qs
       \<and> ttl_contains c (get_cache_key url ps) t = ttl_contains c (get_cache_key url qs) t
       \<and> ttl_getitem c (get_cache_key url ps) t = ttl_getitem c (get_cache_key url qs) t"
  using sort_key_fst_unique [OF assms] by (simp add: get_cache_key_def)

theorem cache_key_order_independent_witness:
  "get_cache_key ''/p'' [(''a'', PInt 1), (''b'', PInt 2)]
     = get_cache_key ''/p'' [(''b'', PInt 2), (''a'', PInt 1)]
   \<and> get_cache_key ''/p'' [(''b'', PInt 2), (''a'', PInt 1)] = ''/p:[('a', 1), ('b', 2)]''"
proof -
  have "get_cache_key ''/p'' [(''a'', PInt 1), (''b'', PInt 2)]
          = get_cache_key ''/p'' [(''b'', PInt 2), (''a'', PInt 1)]
        \<and> ttl_contains (new_cache 1 1) (get_cache_key ''/p'' [(''a'', PInt 1), (''b'', PInt 2)]) 0
          = ttl_contains (new_cache 1 1) (get_cache_key ''/p'' [(''b'', PInt 2), (''a'', PInt 1)]) 0
        \<and> ttl_getitem (new_cache 1 1) (get_cache_key ''/p'' [(''a'', PInt 1), (''b'', PInt 2)]) 0
          = ttl_getitem (new_cache 1 1) (get_cache_key ''/p'' [(''b'', PInt 2), (''a'', PInt 1)]) 0"
    by (rule cache_key_order_independent) auto
  moreover have "get_cache_key ''/p'' [(''b'', PInt 2), (''a'', PInt 1)] = ''/p:[('a', 1), ('b', 2)]''"
    by code_simp
  ultimately show ?thesis by simp
qed

subsection \<open>Lookups, requests and answers\<close>

lemma map_of_move_to_end:
  "map_of (move_to_end k es) k' = map_of es k'"
proof (cases "map_of es k")
  case None
  then show ?thesis by (simp add: move_to_end_def)
next
  case (Some ve)
  have "map_of (filter (\<lambda>x. fst x \<noteq> k) es) k' = (if k' = k then None else map_of es k')"
    by (induction es) auto
  then show ?thesis using Some by (auto simp: move_to_end_def map_add_def split: option.splits)
qed

lemma cached_lookup_hit:
  assumes "ttl_contains (request_cache st) key (now st)"
  shows "\<exists>a e. map_of (links (request_cache st)) key = Some (a, e) \<and> now st < e
           \<and> cached_lookup key st =
               (Some (Inr a), st\<lparr>request_cache := (request_cache st)\<lparr>links := move_to_end key (links (request_cache st))\<rparr>\<rparr>)"
  using assms
  by (auto simp: ttl_contains_def cached_lookup_def ttl_getitem_def Let_def split: option.splits)

lemma cached_lookup_miss:
  "\<not> ttl_contains (request_cache st) key (now st) \<Longrightarrow> cached_lookup key st = (None, st)"
  by (simp add: cached_lookup_def)

lemma make_request_hit:
  assumes "ttl_contains (request_cache st) (get_cache_key url ps) (now st)"
  shows "\<exists>a e. map_of (links (request_cache st)) (get_cache_key url ps) = Some (a, e) \<and> now st < e
           \<and> make_request up url ps st =
               (Inr a, st\<lparr>request_cache := (request_cache st)\<lparr>links := move_to_end (get_cache_key url ps) (links (request_cache st))\<rparr>\<rparr>)"
  using cached_lookup_hit [OF assms] by (auto simp: make_request_def Let_def)

lemma make_request_miss:
  assumes "\<not> ttl_contains (request_cache st) (get_cache_key url ps) (now st)"
  shows "make_request up url ps st =
           receive url ps (snd (up (sent st @ [(url, ps)])))
             (st\<lparr>request_locks := request_locks (get_request_lock (get_cache_key url ps) st),
                 sent := sent st @ [(url, ps)],
                 now := now st + fst (up (sent st @ [(url, ps)]))\<rparr>)"
proof -
  have 1: "cached_lookup (get_cache_key url ps) st = (None, st)"
    using assms by (rule cached_lookup_miss)
  have 2: "cached_lookup (get_cache_key url ps) (get_request_lock (get_cache_key url ps) st)
             = (None, get_request_lock (get_cache_key url ps) st)"
    using assms by (intro cached_lookup_miss) (simp add: get_request_lock_def)
  show ?thesis
    apply (simp only: make_request_def Let_def 1 2 prod.case option.case)
    apply (simp add: send_get_def get_request_lock_def)
    done
qed

lemma receive_failure:
  assumes "out = RequestError msg \<or> out = TimeoutException msg \<or> (out = Response code msg b \<and> \<not> is_success code)"
  shows "receive url ps out st =
       (Inl (HTTPException 500 msg), st\<lparr>log := log st @ [''Error making request to '' @ url @ '': '' @ msg]\<rparr>)"
  using assms by (auto simp: receive_def request_failed_def)

lemma receive_sent: "sent (snd (receive url ps out st)) = sent st"
  by (simp add: receive_def request_failed_def Let_def split: outcome.splits body.splits option.splits)

lemma ttl_contains_mono:
  "ttl_contains c k t' \<Longrightarrow> t \<le> t' \<Longrightarrow> ttl_contains c k t"
  by (auto simp: ttl_contains_def split: option.splits)

lemma map_of_filter_excluded:
  "(\<And>x. P x \<Longrightarrow> fst x \<noteq> k) \<Longrightarrow> map_of (filter P es) k = None"
  by (auto simp: map_of_eq_None_iff)

lemma map_of_filter_append_key:
  "map_of (filter (\<lambda>x. fst x \<noteq> k) es @ [(k, v)]) k = Some v"
  by (simp add: map_add_def map_of_filter_excluded)



subsection \<open>A failed fetch leaves the cache as it was\<close>

text \<open>
  Claim C5. When no valid entry exists for the key and the GET fails (the request raises a
  network error or a timeout, or the response has a status outside 200..299), the caller
  gets an error (\<^verbatim>\<open>HTTPException\<close> with status 500), the cache and the store are left exactly
  as they were, one request went out, and the next call for the same key, whenever it
  comes and whatever the upstream answers then, sends a request again.
\<close>

theorem failed_fetch_not_cached:
  assumes miss: "\<not> ttl_contains (request_cache st) (get_cache_key url ps) (now st)"
    and fails: "snd (up (sent st @ [(url, ps)])) = RequestError msg
              \<or> snd (up (sent st @ [(url, ps)])) = TimeoutException msg
              \<or> (snd (up (sent st @ [(url, ps)])) = Response code msg b \<and> \<not> is_success code)"
  shows "fst (make_request up url ps st) = Inl (HTTPException 500 msg)
       \<and> request_cache (snd (make_request up url ps st)) = request_cache st
       \<and> store (snd (make_request up url ps st)) = store st
       \<and> sent (snd (make_request up url ps st)) = sent st @ [(url, ps)]
       \<and> (\<forall>up' d. sent (snd (make_request up' url ps
                     ((snd (make_request up url ps st))\<lparr>now := now (snd (make_request up url ps st)) + d\<rparr>)))
                  = sent st @ [(url, ps), (url, ps)])"
proof -
  let ?st1 = "st\<lparr>request_locks := request_locks (get_request_lock (get_cache_key url ps) st),
                 sent := sent st @ [(url, ps)],
                 now := now st + fst (up (sent st @ [(url, ps)]))\<rparr>"
  let ?st2 = "?st1\<lparr>log := log ?st1 @ [''Error making request to '' @ url @ '': '' @ msg]\<rparr>"
  have r: "make_request up url ps st = (Inl (HTTPException 500 msg), ?st2)"
    unfolding make_request_miss [OF miss] by (rule receive_failure [OF fails])
  have next_call: "sent (snd (make_request up' url ps (?st2\<lparr>now := now ?st2 + d\<rparr>)))
                     = sent st @ [(url, ps), (url, ps)]" for up' d
  proof -
    let ?st3 = "?st2\<lparr>now := now ?st2 + d\<rparr>"
    have "\<not> ttl_contains (request_cache ?st3) (get_cache_key url ps) (now ?st3)"
      using miss ttl_contains_mono [of "request_cache st" "get_cache_key url ps" "now ?st3" "now st"]
      by auto
    then show ?thesis
      by (simp add: make_request_miss receive_sent)
  qed
  show ?thesis unfolding r using next_call by simp
qed

theorem failed_fetch_not_cached_witness:
  "fst (make_request (\<lambda>reqs. (1, TimeoutException ''timed out'')) ''/api/v1/comments/'' [(''skip'', PInt 0)] (initial_state 100 60))
      = Inl (HTTPException 500 ''timed out'')
   \<and> request_cache (snd (make_request (\<lambda>reqs. (1, TimeoutException ''timed out'')) ''/api/v1/comments/'' [(''skip'', PInt 0)] (initial_state 100 60)))
      = new_cache 100 60"
proof -
  have miss: "\<not> ttl_contains (request_cache (initial_state 100 60))
                  (get_cache_key ''/api/v1/comments/'' [(''skip'', PInt 0)]) (now (initial_state 100 60))"
    by (simp add: initial_state_def new_cache_def ttl_contains_def)
  have fails: "snd ((\<lambda>reqs. (1::nat, TimeoutException ''timed out'')) (sent (initial_state 100 60) @ [(''/api/v1/comments/'', [(''skip'', PInt 0)])])) = RequestError ''timed out''
     \<or> snd ((\<lambda>reqs. (1::nat, TimeoutException ''timed out'')) (sent (initial_state 100 60) @ [(''/api/v1/comments/'', [(''skip'', PInt 0)])])) = TimeoutException ''timed out''
     \<or> (snd ((\<lambda>reqs. (1::nat, TimeoutException ''timed out'')) (sent (initial_state 100 60) @ [(''/api/v1/comments/'', [(''skip'', PInt 0)])])) = Response 0 ''timed out'' Undecodable \<and> \<not> is_success 0)"
    by simp
  show ?thesis
    using failed_fetch_not_cached [OF miss fails] by (simp add: initial_state_def)
qed

subsection \<open>Upstream failures are one kind of error, apart from not-found\<close>



subsection \<open>Resolving a subfeddit by name\<close>

lemma get_subfeddit_by_name_listing:
  assumes "make_request up ''/api/v1/subfeddits/'' [(''limit'', PInt 100)] st = (Inr a, st1)"
  shows "get_subfeddit_by_name up name st =
     (case choose_id (deref st1 a) name of
        Inl e \<Rightarrow> raise_from ''Error finding subfeddit by name: '' e st1
      | Inr i \<Rightarrow>
          (case make_request up ''/api/v1/subfeddit/'' [(''subfeddit_id'', i)] st1 of
             (Inl e, st2) \<Rightarrow> raise_from ''Error finding subfeddit by name: '' e st2
           | (Inr b, st2) \<Rightarrow> (Inr b, st2)))"
  by (simp add: get_subfeddit_by_name_def assms)



lemma raise_from_http:
  "raise_from prefix (HTTPException c d) st = (Inl (HTTPException c d), st)"
  by (simp add: raise_from_def reraise_def)



subsection \<open>Malformed listings\<close>

text \<open>
  Claim C7, as stated, fails: a listing without the \<^verbatim>\<open>subfeddits\<close> field is answered exactly
  like a listing whose \<^verbatim>\<open>subfeddits\<close> is the empty list, with the not-found error, because
  line 125 reads the field with \<^verbatim>\<open>.get('subfeddits', [])\<close>.
\<close>

theorem missing_field_is_defaulted:
  "fst (get_subfeddit_by_name (\<lambda>reqs. (1, Response 200 [] (Decoded (PDict [])))) ''cooking'' (initial_state 100 60))
     = Inl (HTTPException 404 ''Subfeddit with name 'cooking' not found'')
   \<and> fst (get_subfeddit_by_name (\<lambda>reqs. (1, Response 200 [] (Decoded (PDict [(''subfeddits'', PList [])]))))
            ''cooking'' (initial_state 100 60))
     = Inl (HTTPException 404 ''Subfeddit with name 'cooking' not found'')"
  by code_simp

text \<open>
  Claim C7, amended. A listing payload that is a dictionary without the \<^verbatim>\<open>subfeddits\<close> field
  is read as an empty listing, so resolution fails with the not-found error (status 404).
  A listing whose first entry is a dictionary without \<^verbatim>\<open>title\<close> makes resolution fail with
  \<^verbatim>\<open>HTTPException\<close> of status 500, whose detail is the missing key. There is no error kind of
  its own for a malformed payload.
\<close>

theorem malformed_listing:
  assumes listing: "make_request up ''/api/v1/subfeddits/'' [(''limit'', PInt 100)] st = (Inr a, st1)"
    and payload: "deref st1 a = PDict kvs"
  shows "(map_of kvs ''subfeddits'' = None \<longrightarrow>
            get_subfeddit_by_name up name st = (Inl (not_found name), st1))
       \<and> (\<forall>entry rest. map_of kvs ''subfeddits'' = Some (PList (PDict entry # rest)) \<and> map_of entry ''title'' = None \<longrightarrow>
            fst (get_subfeddit_by_name up name st) = Inl (HTTPException 500 (str_repr ''title'')))"
proof (intro conjI allI impI)
  assume "map_of kvs ''subfeddits'' = None"
  then have "choose_id (PDict kvs) name = Inl (not_found name)"
    by (simp add: choose_id_def and_then_def)
  then show "get_subfeddit_by_name up name st = (Inl (not_found name), st1)"
    by (simp add: get_subfeddit_by_name_listing [OF listing] payload not_found_def raise_from_http)
next
  fix entry rest
  assume "map_of kvs ''subfeddits'' = Some (PList (PDict entry # rest)) \<and> map_of entry ''title'' = None"
  then have "choose_id (PDict kvs) name = Inl (KeyError ''title'')"
    by (simp add: choose_id_def and_then_def)
  then show "fst (get_subfeddit_by_name up name st) = Inl (HTTPException 500 (str_repr ''title''))"
    by (simp add: get_subfeddit_by_name_listing [OF listing] payload raise_from_def reraise_def)
qed

theorem malformed_listing_witness:
  "fst (get_subfeddit_by_name (\<lambda>reqs. (1, Response 200 [] (Decoded (PDict [(''total'', PInt 0)]))))
          ''cooking'' (initial_state 100 60))
     = Inl (HTTPException 404 ''Subfeddit with name 'cooking' not found'')
   \<and> fst (get_subfeddit_by_name
            (\<lambda>reqs. (1, Response 200 [] (Decoded (PDict [(''subfeddits'', PList [PDict [(''id'', PInt 1)]])]))))
            ''cooking'' (initial_state 100 60))
     = Inl (HTTPException 500 ([CHR 0x27] @ ''title'' @ [CHR 0x27]))"
proof -
  let ?st = "initial_state 100 60"
  let ?up1 = "\<lambda>reqs :: (string \<times> params) list. (1::nat, Response 200 [] (Decoded (PDict [(''total'', PInt 0)])))"
  let ?up2 = "\<lambda>reqs :: (string \<times> params) list.
                (1::nat, Response 200 [] (Decoded (PDict [(''subfeddits'', PList [PDict [(''id'', PInt 1)]])])))"
  let ?r1 = "make_request ?up1 ''/api/v1/subfeddits/'' [(''limit'', PInt 100)] ?st"
  let ?r2 = "make_request ?up2 ''/api/v1/subfeddits/'' [(''limit'', PInt 100)] ?st"
  have "fst ?r1 = Inr 0" by code_simp
  then have listing1: "?r1 = (Inr 0, snd ?r1)" by (metis prod.collapse)
  have payload1: "deref (snd ?r1) 0 = PDict [(''total'', PInt 0)]" by code_simp
  have "fst ?r2 = Inr 0" by code_simp
  then have listing2: "?r2 = (Inr 0, snd ?r2)" by (metis prod.collapse)
  have payload2: "deref (snd ?r2) 0 = PDict [(''subfeddits'', PList [PDict [(''id'', PInt 1)]])]" by code_simp
  have n1: "map_of [(''total'', PInt 0)] ''subfeddits'' = None" by simp
  have n2: "map_of [(''subfeddits'', PList [PDict [(''id'', PInt 1)]])] ''subfeddits''
              = Some (PList (PDict [(''id'', PInt 1)] # []))
            \<and> map_of [(''id'', PInt 1)] ''title'' = None" by simp
  have a: "get_subfeddit_by_name ?up1 ''cooking'' ?st = (Inl (not_found ''cooking''), snd ?r1)"
    using malformed_listing [OF listing1 payload1, of "''cooking''"] n1 by blast
  have b: "fst (get_subfeddit_by_name ?up2 ''cooking'' ?st) = Inl (HTTPException 500 (str_repr ''title''))"
    using malformed_listing [OF listing2 payload2, of "''cooking''"] n2 by blast
  have c: "str_repr ''title'' = [CHR 0x27] @ ''title'' @ [CHR 0x27]" by code_simp
  show ?thesis unfolding a b c by (simp add: not_found_def)
qed

subsection \<open>The listing is cut at 100 entries\<close>




subsection \<open>The handler changes the cached comments\<close>

lemma first_request_cache:
  "map_of (links (request_cache (snd (get_subfeddit_comments example_textblob example_upstream ''cooking'' 25 0
          None (Some ''desc'') (Some ''positive'') (initial_state 100 60)))))
     (get_cache_key ''/api/v1/comments/'' [(''subfeddit_id'', PInt 1), (''limit'', PInt 25), (''skip'', PInt 0)])
   = Some (2, 63)"
  by code_simp

lemma first_request_object:
  "deref (snd (get_subfeddit_comments example_textblob example_upstream ''cooking'' 25 0 None (Some ''desc'')
          (Some ''positive'') (initial_state 100 60))) 2
   = PDict [(''subfeddit_id'', PInt 1), (''limit'', PInt 25), (''skip'', PInt 0),
            (''comments'', PList
               [PDict [(''id'', PInt 1), (''username'', PStr ''user1''),
                       (''text'', PStr ''This is a great comment!''), (''created_at'', PInt 100),
                       (''sentiment'', PDict [(''polarity'', PFloat 1), (''classification'', PStr ''positive'')])]]),
            (''subfeddit_name'', PStr ''cooking''), (''sort_by'', PNone), (''sort_order'', PStr ''desc''),
            (''filter_by'', PStr ''positive'')]"
  by code_simp

lemma second_request_object:
  "py_subscript
     (deref (snd (get_subfeddit_comments example_textblob example_upstream ''cooking'' 25 0 None (Some ''desc'')
        (Some ''negative'')
        (snd (get_subfeddit_comments example_textblob example_upstream ''cooking'' 25 0 None (Some ''desc'')
               (Some ''positive'') (initial_state 100 60))))) 2) ''comments''
   = Inr (PList [])"
  by code_simp

lemma second_request_sent:
  "length (sent (snd (get_subfeddit_comments example_textblob example_upstream ''cooking'' 25 0 None (Some ''desc'')
        (Some ''negative'')
        (snd (get_subfeddit_comments example_textblob example_upstream ''cooking'' 25 0 None (Some ''desc'')
               (Some ''positive'') (initial_state 100 60)))))) = 3"
  by code_simp

text \<open>
  Claim C3 does not hold of the code. The handler adds \<^verbatim>\<open>sentiment\<close> to, and filters, the
  very object that \<^verbatim>\<open>_make_request\<close> put into the cache. After a request for the comments of
  Cooking with \<^verbatim>\<open>filter_by=positive\<close> on a fresh process, the object cached under the comments
  key is no longer the payload the upstream sent: it holds only the positive comment, with
  its sentiment, and the labels of that request. A following request with
  \<^verbatim>\<open>filter_by=negative\<close> is served from that object without a new GET (three requests went
  out in all) and finds no comment, although the upstream has a negative one.
\<close>

theorem cached_comments_are_changed:
  "map_of (links (request_cache (snd (get_subfeddit_comments example_textblob example_upstream ''cooking'' 25 0
          None (Some ''desc'') (Some ''positive'') (initial_state 100 60)))))
     (get_cache_key ''/api/v1/comments/'' [(''subfeddit_id'', PInt 1), (''limit'', PInt 25), (''skip'', PInt 0)])
     = Some (2, 63)
   \<and> deref (snd (get_subfeddit_comments example_textblob example_upstream ''cooking'' 25 0 None (Some ''desc'')
          (Some ''positive'') (initial_state 100 60))) 2
     \<noteq> cooking_comments
   \<and> py_subscript (deref (snd (get_subfeddit_comments example_textblob example_upstream ''cooking'' 25 0 None
          (Some ''desc'') (Some ''positive'') (initial_state 100 60))) 2) ''comments''
     = Inr (PList
         [PDict [(''id'', PInt 1), (''username'', PStr ''user1''),
                 (''text'', PStr ''This is a great comment!''), (''created_at'', PInt 100),
                 (''sentiment'', PDict [(''polarity'', PFloat 1), (''classification'', PStr ''positive'')])]])
   \<and> py_subscript
        (deref (snd (get_subfeddit_comments example_textblob example_upstream ''cooking'' 25 0 None (Some ''desc'')
           (Some ''negative'')
           (snd (get_subfeddit_comments example_textblob example_upstream ''cooking'' 25 0 None (Some ''desc'')
                  (Some ''positive'') (initial_state 100 60))))) 2) ''comments''
     = Inr (PList [])
   \<and> length (sent (snd (get_subfeddit_comments example_textblob example_upstream ''cooking'' 25 0 None (Some ''desc'')
        (Some ''negative'')
        (snd (get_subfeddit_comments example_textblob example_upstream ''cooking'' 25 0 None (Some ''desc'')
               (Some ''positive'') (initial_state 100 60)))))) = 3"
  unfolding first_request_cache first_request_object second_request_object second_request_sent
  by (simp add: cooking_comments_def)

subsection \<open>The capacity of the cache\<close>

lemma filter_other_keys:
  "k \<notin> fst ` set es \<Longrightarrow> filter (\<lambda>x. fst x \<noteq> k) es = es"
  by (induction es) auto

lemma length_filter_key:
  "distinct (map fst es) \<Longrightarrow> map_of es k = Some ve \<Longrightarrow>
     Suc (length (filter (\<lambda>x. fst x \<noteq> k) es)) = length es"
proof (induction es)
  case Nil
  then show ?case by simp
next
  case (Cons x es)
  show ?case
  proof (cases "fst x = k")
    case True
    have "k \<notin> fst ` set es" using Cons.prems(1) True by simp
    then show ?thesis using True by (simp add: filter_other_keys)
  next
    case False
    then have m: "map_of es k = Some ve" using Cons.prems(2) by (cases x) simp
    have "distinct (map fst es)" using Cons.prems(1) by simp
    from this m have "Suc (length (filter (\<lambda>x. fst x \<noteq> k) es)) = length es" by (rule Cons.IH)
    then show ?thesis using False by simp
  qed
qed

lemma length_move_to_end: "distinct (map fst es) \<Longrightarrow> length (move_to_end k es) = length es"
  by (cases "map_of es k") (simp_all add: move_to_end_def length_filter_key)

lemma distinct_move_to_end:
  assumes "distinct (map fst es)"
  shows "distinct (map fst (move_to_end k es))"
proof (cases "map_of es k")
  case None
  then show ?thesis using assms by (simp add: move_to_end_def)
next
  case (Some ve)
  have "distinct (map fst (filter (\<lambda>x. fst x \<noteq> k) es))"
    using assms by (rule distinct_map_filter)
  moreover have "k \<notin> fst ` set (filter (\<lambda>x. fst x \<noteq> k) es)" by auto
  ultimately show ?thesis using Some by (simp add: move_to_end_def)
qed

lemma cache_ok_new: "cache_ok (new_cache m life)"
  by (simp add: cache_ok_def new_cache_def)

lemma cache_ok_getitem:
  assumes "cache_ok c"
  shows "cache_ok (snd (ttl_getitem c k t))"
proof (cases "map_of (links c) k")
  case None
  then show ?thesis using assms by (simp add: ttl_getitem_def)
next
  case (Some ve)
  then have "snd (ttl_getitem c k t) = c\<lparr>links := move_to_end k (links c)\<rparr>"
    by (cases ve) (simp add: ttl_getitem_def)
  then show ?thesis
    using assms by (simp add: cache_ok_def length_move_to_end distinct_move_to_end)
qed

lemma getitem_fields:
  "maxsize (snd (ttl_getitem c k t)) = maxsize c \<and> ttl (snd (ttl_getitem c k t)) = ttl c"
  by (simp add: ttl_getitem_def split: option.splits prod.splits)

lemma setitem_links:
  "links (snd (ttl_setitem c k v t)) =
     (let es = filter (\<lambda>x. t < snd (snd x)) (links c)
      in if maxsize c < 1 then es
         else filter (\<lambda>x. fst x \<noteq> k) (if map_of es k = None then drop (Suc (length es) - maxsize c) es else es)
                @ [(k, v, t + ttl c)])"
  by (simp add: ttl_setitem_def ttl_expire_def Let_def)

lemma cache_ok_setitem:
  assumes ok: "cache_ok c"
  shows "cache_ok (snd (ttl_setitem c k v t))"
proof -
  let ?es = "filter (\<lambda>x. t < snd (snd x)) (links c)"
  let ?c' = "snd (ttl_setitem c k v t)"
  have m: "maxsize ?c' = maxsize c" by (simp add: ttl_setitem_def ttl_expire_def Let_def)
  have d: "distinct (map fst ?es)" using ok by (simp add: cache_ok_def distinct_map_filter)
  have l: "length ?es \<le> maxsize c"
    using ok by (meson cache_ok_def le_trans length_filter_le)
  show ?thesis
  proof (cases "maxsize c < 1")
    case True
    then have "links ?c' = ?es" by (simp add: setitem_links Let_def)
    then show ?thesis using d l m by (simp add: cache_ok_def)
  next
    case False
    show ?thesis
    proof (cases "map_of ?es k")
      case None
      let ?kept = "drop (Suc (length ?es) - maxsize c) ?es"
      have "k \<notin> fst ` set ?es" using None by (simp add: map_of_eq_None_iff)
      moreover have "set ?kept \<subseteq> set ?es" by (rule set_drop_subset)
      ultimately have notin: "k \<notin> fst ` set ?kept" by blast
      then have f: "filter (\<lambda>x. fst x \<noteq> k) ?kept = ?kept" by (auto simp: filter_id_conv)
      have lk: "links ?c' = ?kept @ [(k, v, t + ttl c)]"
        using None False f by (simp add: setitem_links Let_def)
      have dk: "distinct (map fst ?kept)"
        using d by (simp add: distinct_drop drop_map [symmetric])
      have "length ?kept + 1 \<le> maxsize c" using l False by simp
      then show ?thesis using lk dk notin m by (simp add: cache_ok_def)
    next
      case (Some ve)
      let ?kept = "filter (\<lambda>x. fst x \<noteq> k) ?es"
      have lk: "links ?c' = ?kept @ [(k, v, t + ttl c)]"
        using Some False by (simp add: setitem_links Let_def)
      have "length ?kept + 1 = length (move_to_end k ?es)"
        using Some by (simp add: move_to_end_def)
      then have len: "length ?kept + 1 \<le> maxsize c"
        using l d by (simp add: length_move_to_end)
      have dk: "distinct (map fst ?kept)" using d by (rule distinct_map_filter)
      have "k \<notin> fst ` set ?kept" by auto
      then show ?thesis using lk dk len m by (simp add: cache_ok_def)
    qed
  qed
qed

lemma setitem_fields:
  "maxsize (snd (ttl_setitem c k v t)) = maxsize c \<and> ttl (snd (ttl_setitem c k v t)) = ttl c"
  by (simp add: ttl_setitem_def ttl_expire_def Let_def)

lemma cached_lookup_cache:
  "cache_ok (request_cache st) \<Longrightarrow>
     cache_ok (request_cache (snd (cached_lookup key st)))
     \<and> maxsize (request_cache (snd (cached_lookup key st))) = maxsize (request_cache st)
     \<and> ttl (request_cache (snd (cached_lookup key st))) = ttl (request_cache st)"
  by (simp add: cached_lookup_def Let_def cache_ok_getitem getitem_fields)

lemma receive_cache:
  "cache_ok (request_cache st) \<Longrightarrow>
     cache_ok (request_cache (snd (receive url ps out st)))
     \<and> maxsize (request_cache (snd (receive url ps out st))) = maxsize (request_cache st)
     \<and> ttl (request_cache (snd (receive url ps out st))) = ttl (request_cache st)"
  by (auto simp: receive_def request_failed_def Let_def cache_ok_setitem setitem_fields
      split: outcome.splits body.splits option.splits)

lemma make_request_cache:
  assumes "cache_ok (request_cache st)"
  shows "cache_ok (request_cache (snd (make_request up url ps st)))
     \<and> maxsize (request_cache (snd (make_request up url ps st))) = maxsize (request_cache st)
     \<and> ttl (request_cache (snd (make_request up url ps st))) = ttl (request_cache st)"
proof (cases "ttl_contains (request_cache st) (get_cache_key url ps) (now st)")
  case True
  then show ?thesis
    using make_request_hit [OF True, of up] assms
    by (auto simp: cache_ok_def length_move_to_end distinct_move_to_end)
next
  case False
  show ?thesis
    unfolding make_request_miss [OF False]
    using receive_cache [of "st\<lparr>request_locks := request_locks (get_request_lock (get_cache_key url ps) st),
                 sent := sent st @ [(url, ps)],
                 now := now st + fst (up (sent st @ [(url, ps)]))\<rparr>" url ps] assms
    by simp
qed

lemma fetches_cache:
  "cache_ok (request_cache st) \<Longrightarrow>
     cache_ok (request_cache (fetches up rs st))
     \<and> maxsize (request_cache (fetches up rs st)) = maxsize (request_cache st)
     \<and> ttl (request_cache (fetches up rs st)) = ttl (request_cache st)"
proof (induction rs arbitrary: st)
  case Nil
  then show ?case by simp
next
  case (Cons r rs)
  let ?st = "st\<lparr>now := now st + fst r\<rparr>"
  have "cache_ok (request_cache ?st)" using Cons.prems by simp
  from make_request_cache [OF this, of up "fst (snd r)" "snd (snd r)"] Cons.IH
  show ?case by simp
qed

lemma make_request_now: "now st \<le> now (snd (make_request up url ps st))"
proof (cases "ttl_contains (request_cache st) (get_cache_key url ps) (now st)")
  case True
  then show ?thesis using make_request_hit [OF True, of up] by auto
next
  case False
  have "now (snd (receive url ps out st')) = now st'" for out st'
    by (simp add: receive_def request_failed_def Let_def split: outcome.splits body.splits option.splits)
  then show ?thesis unfolding make_request_miss [OF False] by simp
qed

lemma fetches_now: "now st \<le> now (fetches up rs st)"
proof (induction rs arbitrary: st)
  case Nil
  then show ?case by simp
next
  case (Cons r rs)
  let ?st1 = "snd (make_request up (fst (snd r)) (snd (snd r)) (st\<lparr>now := now st + fst r\<rparr>))"
  have "now st \<le> now (st\<lparr>now := now st + fst r\<rparr>)" by simp
  also have "\<dots> \<le> now ?st1" by (rule make_request_now)
  also have "\<dots> \<le> now (fetches up rs ?st1)" by (rule Cons.IH)
  finally show ?case by simp
qed

lemma drop_shift:
  assumes "length K \<le> m" "0 < m"
  shows "drop (length (drop (Suc (length K) - m) K @ [k]) + j - m) ((drop (Suc (length K) - m) K @ [k]) @ R)
       = drop (length K + Suc j - m) (K @ k # R)"
proof (cases "length K < m")
  case True
  then show ?thesis by simp
next
  case False
  then have l: "length K = m" using assms(1) by simp
  then have ne: "K \<noteq> []" using assms(2) by auto
  have a: "Suc (length K) - m = 1" using l by simp
  have b: "length (drop 1 K @ [k]) + j - m = j" using l assms(2) by simp
  have c: "length K + Suc j - m = Suc j" using l by simp
  have d: "drop (Suc j) (K @ k # R) = drop j (drop 1 (K @ k # R))"
    by (simp only: drop_drop) simp
  have e: "drop 1 (K @ k # R) = (drop 1 K @ [k]) @ R" using ne by (cases K) simp_all
  show ?thesis unfolding a b c d e ..
qed

lemma fetch_new_key:
  assumes ok: "cache_ok (request_cache st)" and room: "0 < maxsize (request_cache st)"
    and fresh: "get_cache_key url ps \<notin> fst ` set (links (request_cache st))"
    and ans: "snd (up (sent st @ [(url, ps)])) = Response code msg (Decoded v)" "is_success code"
    and live: "\<forall>x\<in>set (links (request_cache st)). now (snd (make_request up url ps st)) < snd (snd x)"
  shows "links (request_cache (snd (make_request up url ps st)))
           = drop (Suc (length (links (request_cache st))) - maxsize (request_cache st)) (links (request_cache st))
             @ [(get_cache_key url ps, length (store st),
                 now (snd (make_request up url ps st)) + ttl (request_cache st))]"
proof -
  let ?k = "get_cache_key url ps" and ?c = "request_cache st"
  let ?t = "now st + fst (up (sent st @ [(url, ps)]))"
  let ?st0 = "st\<lparr>request_locks := request_locks (get_request_lock ?k st),
                 sent := sent st @ [(url, ps)], now := ?t\<rparr>"
  have none: "map_of (links ?c) ?k = None" using fresh by (simp add: map_of_eq_None_iff)
  then have miss: "\<not> ttl_contains ?c ?k (now st)" by (simp add: ttl_contains_def)
  have mr: "make_request up url ps st = receive url ps (Response code msg (Decoded v)) ?st0"
    using make_request_miss [OF miss, of up] ans(1) by simp
  have nw: "now (snd (make_request up url ps st)) = ?t"
    unfolding mr using ans(2) by (simp add: receive_def Let_def split: option.splits)
  have es: "filter (\<lambda>x. ?t < snd (snd x)) (links ?c) = links ?c"
    using live nw by (simp add: filter_id_conv)
  have "set (drop (Suc (length (links ?c)) - maxsize ?c) (links ?c)) \<subseteq> set (links ?c)"
    by (rule set_drop_subset)
  then have "?k \<notin> fst ` set (drop (Suc (length (links ?c)) - maxsize ?c) (links ?c))"
    using fresh by blast
  then have f: "filter (\<lambda>x. fst x \<noteq> ?k) (drop (Suc (length (links ?c)) - maxsize ?c) (links ?c))
                 = drop (Suc (length (links ?c)) - maxsize ?c) (links ?c)"
    by (rule filter_other_keys)
  have "links (request_cache (snd (make_request up url ps st)))
          = links (snd (ttl_setitem ?c ?k (length (store st)) ?t))"
    unfolding mr using ans(2) by (simp add: receive_def Let_def split: option.splits)
  also have "\<dots> = drop (Suc (length (links ?c)) - maxsize ?c) (links ?c) @ [(?k, length (store st), ?t + ttl ?c)]"
    using room none es f by (simp add: setitem_links Let_def)
  finally show ?thesis using nw by simp
qed


lemma disjoint_insert_step:
  "A \<subseteq> insert k B \<Longrightarrow> k \<notin> R \<Longrightarrow> R \<inter> B = {} \<Longrightarrow> R \<inter> A = {}"
  by blast

lemma fetches_distinct_keys:
  assumes up: "always_answers up"
  shows "cache_ok (request_cache st) \<Longrightarrow> 0 < maxsize (request_cache st)
    \<Longrightarrow> \<forall>x\<in>set (links (request_cache st)). T \<le> snd (snd x)
    \<Longrightarrow> T \<le> now st + ttl (request_cache st)
    \<Longrightarrow> distinct (map request_key rs)
    \<Longrightarrow> set (map request_key rs) \<inter> fst ` set (links (request_cache st)) = {}
    \<Longrightarrow> now (fetches up rs st) < T
    \<Longrightarrow> map fst (links (request_cache (fetches up rs st)))
          = drop (length (links (request_cache st)) + length rs - maxsize (request_cache st))
              (map fst (links (request_cache st)) @ map request_key rs)
        \<and> (\<forall>x\<in>set (links (request_cache (fetches up rs st))). T \<le> snd (snd x))"
proof (induction rs arbitrary: st)
  case Nil
  then show ?case by (simp add: cache_ok_def)
next
  case (Cons r rs)
  let ?c = "request_cache st"
  let ?url = "fst (snd r)" and ?ps = "snd (snd r)"
  let ?k = "get_cache_key ?url ?ps"
  let ?sta = "st\<lparr>now := now st + fst r\<rparr>"
  let ?st1 = "snd (make_request up ?url ?ps ?sta)"
  let ?c1 = "request_cache ?st1"
  have k: "request_key r = ?k" by (simp add: request_key_def)
  have fin: "fetches up (r # rs) st = fetches up rs ?st1" by simp
  obtain code msg v where ans: "snd (up (sent ?sta @ [(?url, ?ps)])) = Response code msg (Decoded v)" "is_success code"
    using up unfolding always_answers_def by blast
  have oka: "cache_ok (request_cache ?sta)" using Cons.prems(1) by simp
  have rooma: "0 < maxsize (request_cache ?sta)" using Cons.prems(2) by simp
  have "request_key r \<in> set (map request_key (r # rs))" by simp
  then have "request_key r \<notin> fst ` set (links ?c)" using Cons.prems(6) by blast
  then have fresh: "?k \<notin> fst ` set (links (request_cache ?sta))" using k by simp
  have t1: "now ?st1 < T"
    using Cons.prems(7) fetches_now [of ?st1 up rs] unfolding fin by simp
  have live: "\<forall>x\<in>set (links (request_cache ?sta)). now ?st1 < snd (snd x)"
  proof
    fix x assume "x \<in> set (links (request_cache ?sta))"
    then have "T \<le> snd (snd x)" using Cons.prems(3) by simp
    then show "now ?st1 < snd (snd x)" using t1 by simp
  qed
  have l1: "links ?c1 = drop (Suc (length (links ?c)) - maxsize ?c) (links ?c)
                         @ [(?k, length (store st), now ?st1 + ttl ?c)]"
    using fetch_new_key [OF oka rooma fresh ans live] by simp
  note inv1 = make_request_cache [OF oka, of up ?url ?ps]
  have ok1: "cache_ok ?c1" and m1: "maxsize ?c1 = maxsize ?c" and life1: "ttl ?c1 = ttl ?c"
    using inv1 by simp_all
  have room1: "0 < maxsize ?c1" using m1 Cons.prems(2) by simp
  have n1: "now st \<le> now ?st1"
    using make_request_now [of ?sta up ?url ?ps] by simp
  have sub: "set (drop (Suc (length (links ?c)) - maxsize ?c) (links ?c)) \<subseteq> set (links ?c)"
    by (rule set_drop_subset)
  have exp1: "\<forall>x\<in>set (links ?c1). T \<le> snd (snd x)"
  proof
    fix x assume "x \<in> set (links ?c1)"
    then consider "x \<in> set (links ?c)" | "x = (?k, length (store st), now ?st1 + ttl ?c)"
      using sub unfolding l1 by auto
    then show "T \<le> snd (snd x)"
    proof cases
      case 1
      then show ?thesis using Cons.prems(3) by simp
    next
      case 2
      then show ?thesis using Cons.prems(4) n1 by simp
    qed
  qed
  have T1: "T \<le> now ?st1 + ttl ?c1" using Cons.prems(4) n1 life1 by simp
  have d1: "distinct (map request_key rs)" using Cons.prems(5) by simp
  have "set (links ?c1) \<subseteq> insert (?k, length (store st), now ?st1 + ttl ?c) (set (links ?c))"
    using sub unfolding l1 by auto
  then have "fst ` set (links ?c1) \<subseteq> fst ` insert (?k, length (store st), now ?st1 + ttl ?c) (set (links ?c))"
    by (rule image_mono)
  then have "fst ` set (links ?c1) \<subseteq> insert ?k (fst ` set (links ?c))" by simp
  moreover have "?k \<notin> set (map request_key rs)" using Cons.prems(5) k by simp
  moreover have "set (map request_key rs) \<inter> fst ` set (links ?c) = {}"
  proof -
    have "set (map request_key rs) \<subseteq> set (map request_key (r # rs))" by (simp add: subset_insertI)
    then show ?thesis using Cons.prems(6) by blast
  qed
  ultimately have disj1: "set (map request_key rs) \<inter> fst ` set (links ?c1) = {}"
    by (rule disjoint_insert_step)
  have fin1: "now (fetches up rs ?st1) < T" using Cons.prems(7) unfolding fin .
  note ih = Cons.IH [OF ok1 room1 exp1 T1 d1 disj1 fin1]
  have keys1: "map fst (links ?c1) = drop (Suc (length (map fst (links ?c))) - maxsize ?c) (map fst (links ?c)) @ [?k]"
    unfolding l1 by (simp add: drop_map)
  have len: "length (map fst (links ?c)) \<le> maxsize ?c" using Cons.prems(1) by (simp add: cache_ok_def)
  have "map fst (links (request_cache (fetches up rs ?st1)))
          = drop (length (map fst (links ?c1)) + length rs - maxsize ?c)
              (map fst (links ?c1) @ map request_key rs)"
    using ih m1 by simp
  also have "\<dots> = drop (length (map fst (links ?c)) + Suc (length rs) - maxsize ?c)
                      (map fst (links ?c) @ ?k # map request_key rs)"
    unfolding keys1 by (rule drop_shift [OF len Cons.prems(2)])
  finally have "map fst (links (request_cache (fetches up (r # rs) st)))
          = drop (length (links ?c) + length (r # rs) - maxsize ?c)
              (map fst (links ?c) @ map request_key (r # rs))"
    unfolding fin using k by simp
  moreover have "\<forall>x\<in>set (links (request_cache (fetches up (r # rs) st))). T \<le> snd (snd x)"
    unfolding fin using ih by blast
  ultimately show ?case by blast
qed

lemma contains_iff_key:
  assumes "\<forall>x\<in>set (links c). t < snd (snd x)"
  shows "ttl_contains c k t \<longleftrightarrow> k \<in> set (map fst (links c))"
proof (cases "map_of (links c) k")
  case None
  then have "k \<notin> fst ` set (links c)" by (simp add: map_of_eq_None_iff)
  then show ?thesis using None by (simp add: ttl_contains_def)
next
  case (Some ve)
  then have in_c: "(k, ve) \<in> set (links c)" by (rule map_of_SomeD)
  then have "t < snd (snd (k, ve))" using assms by blast
  then have "t < snd ve" by simp
  moreover have "fst (k, ve) \<in> fst ` set (links c)" using in_c by (rule imageI)
  ultimately show ?thesis using Some by (cases ve) (simp add: ttl_contains_def)
qed

lemma fetches_from_initial:
  assumes up: "always_answers up" and room: "0 < m"
    and keys: "distinct (map request_key rs)"
    and fast: "now (fetches up rs (initial_state m life)) < life"
  shows "ttl_contains (request_cache (fetches up rs (initial_state m life))) k
            (now (fetches up rs (initial_state m life)))
         \<longleftrightarrow> k \<in> set (drop (length rs - m) (map request_key rs))"
proof -
  let ?st = "initial_state m life"
  have a: "cache_ok (request_cache ?st)" "0 < maxsize (request_cache ?st)"
    "\<forall>x\<in>set (links (request_cache ?st)). life \<le> snd (snd x)"
    "life \<le> now ?st + ttl (request_cache ?st)"
    "set (map request_key rs) \<inter> fst ` set (links (request_cache ?st)) = {}"
    using room by (simp_all add: initial_state_def new_cache_def cache_ok_def)
  note r = fetches_distinct_keys [OF up a(1) a(2) a(3) a(4) keys a(5) fast]
  have k: "map fst (links (request_cache (fetches up rs ?st))) = drop (length rs - m) (map request_key rs)"
    using r by (simp add: initial_state_def new_cache_def)
  have "\<forall>x\<in>set (links (request_cache (fetches up rs ?st))). now (fetches up rs ?st) < snd (snd x)"
  proof
    fix x assume "x \<in> set (links (request_cache (fetches up rs ?st)))"
    then have "life \<le> snd (snd x)" using r by blast
    then show "now (fetches up rs ?st) < snd (snd x)" using fast by simp
  qed
  then show ?thesis using k by (simp add: contains_iff_key)
qed

lemma fetches_append: "fetches up (xs @ ys) st = fetches up ys (fetches up xs st)"
  by (induction xs arbitrary: st) simp_all

lemma fetches_take_now: "now (fetches up (take j rs) st) \<le> now (fetches up rs st)"
proof -
  have "fetches up rs st = fetches up (drop j rs) (fetches up (take j rs) st)"
    using fetches_append [of up "take j rs" "drop j rs" st] by simp
  then show ?thesis using fetches_now [of "fetches up (take j rs) st" up "drop j rs"] by simp
qed

lemma fetches_capacity:
  "length (links (request_cache (fetches up rs (initial_state m life)))) \<le> m"
proof -
  have "cache_ok (request_cache (initial_state m life))"
    by (simp add: initial_state_def cache_ok_new)
  from fetches_cache [OF this, of up rs] show ?thesis
    by (simp add: cache_ok_def initial_state_def new_cache_def)
qed

lemma setitem_evicts_first:
  assumes "length (links c) = maxsize c" "0 < maxsize c"
    and "\<forall>x\<in>set (links c). t < snd (snd x)" and "k \<notin> fst ` set (links c)"
  shows "links (snd (ttl_setitem c k v t)) = tl (links c) @ [(k, v, t + ttl c)]"
proof -
  have es: "filter (\<lambda>x. t < snd (snd x)) (links c) = links c"
    using assms(3) by (simp add: filter_id_conv)
  have none: "map_of (links c) k = None" using assms(4) by (simp add: map_of_eq_None_iff)
  have "set (tl (links c)) \<subseteq> set (links c)" by (cases "links c") auto
  then have "k \<notin> fst ` set (tl (links c))" using assms(4) by blast
  then have f: "filter (\<lambda>x. fst x \<noteq> k) (tl (links c)) = tl (links c)" by (rule filter_other_keys)
  have d: "drop (Suc (length (links c)) - maxsize c) (links c) = tl (links c)"
    using assms(1) by (simp add: drop_Suc)
  show ?thesis using assms(2) es none f d by (simp add: setitem_links Let_def)
qed

subsection \<open>Which key a full cache gives up\<close>

text \<open>
  Claim C9, as stated, fails: the key that a full cache gives up is the least recently
  used one, and a hit served by \<^verbatim>\<open>_make_request\<close> (\<^verbatim>\<open>return request_cache[cache_key]\<close>) is a
  use. With room for two entries, after fetching \<^verbatim>\<open>/a\<close>, \<^verbatim>\<open>/b\<close>, \<^verbatim>\<open>/a\<close> again (a hit: only
  three requests go out) and \<^verbatim>\<open>/c\<close>, the oldest-inserted key \<^verbatim>\<open>/a\<close> is still retrievable
  and \<^verbatim>\<open>/b\<close> is gone.
\<close>

theorem oldest_inserted_survives_a_hit:
  "ttl_contains
     (request_cache (fetches (\<lambda>reqs. (1, Response 200 [] (Decoded PNone)))
        [(0, ''/a'', []), (0, ''/b'', []), (0, ''/a'', []), (0, ''/c'', [])] (initial_state 2 60)))
     (get_cache_key ''/a'' [])
     (now (fetches (\<lambda>reqs. (1, Response 200 [] (Decoded PNone)))
        [(0, ''/a'', []), (0, ''/b'', []), (0, ''/a'', []), (0, ''/c'', [])] (initial_state 2 60)))
   \<and> \<not> ttl_contains
     (request_cache (fetches (\<lambda>reqs. (1, Response 200 [] (Decoded PNone)))
        [(0, ''/a'', []), (0, ''/b'', []), (0, ''/a'', []), (0, ''/c'', [])] (initial_state 2 60)))
     (get_cache_key ''/b'' [])
     (now (fetches (\<lambda>reqs. (1, Response 200 [] (Decoded PNone)))
        [(0, ''/a'', []), (0, ''/b'', []), (0, ''/a'', []), (0, ''/c'', [])] (initial_state 2 60)))
   \<and> sent (fetches (\<lambda>reqs. (1, Response 200 [] (Decoded PNone)))
        [(0, ''/a'', []), (0, ''/b'', []), (0, ''/a'', []), (0, ''/c'', [])] (initial_state 2 60))
     = [(''/a'', []), (''/b'', []), (''/c'', [])]"
  by code_simp

text \<open>
  Claim C9, amended. The cache never holds more entries than its configured size,
  whatever is fetched. When a fresh process with room for \<open>m \<ge> 1\<close> entries fetches \<open>m + 1\<close>
  requests with pairwise different keys, every one answered, all within the time-to-live
  and with no hit in between, then exactly the last \<open>m\<close> keys are retrievable afterwards;
  the first key is retrievable after each of the first \<open>m\<close> fetches and absent after the
  last. In general a full cache gives up its least recently used entry: storing a new key
  removes the entry at the front of the order, and reading a key (as a hit does) moves it
  to the back.
\<close>

theorem cache_capacity:
  assumes up: "always_answers up" and room: "0 < m"
    and keys: "distinct (map request_key rs)" and count: "length rs = Suc m"
    and fast: "now (fetches up rs (initial_state m life)) < life"
  shows "(\<forall>up' rs'. length (links (request_cache (fetches up' rs' (initial_state m life)))) \<le> m)
     \<and> (\<forall>k. ttl_contains (request_cache (fetches up rs (initial_state m life))) k
                (now (fetches up rs (initial_state m life)))
              \<longleftrightarrow> k \<in> set (map request_key (tl rs)))
     \<and> card {k. ttl_contains (request_cache (fetches up rs (initial_state m life))) k
                (now (fetches up rs (initial_state m life)))} = m
     \<and> (\<forall>j. 0 < j \<and> j \<le> m \<longrightarrow>
           ttl_contains (request_cache (fetches up (take j rs) (initial_state m life))) (request_key (hd rs))
             (now (fetches up (take j rs) (initial_state m life))))
     \<and> \<not> ttl_contains (request_cache (fetches up rs (initial_state m life))) (request_key (hd rs))
             (now (fetches up rs (initial_state m life)))
     \<and> (\<forall>c k v t. length (links c) = maxsize c \<and> 0 < maxsize c
             \<and> (\<forall>x\<in>set (links c). t < snd (snd x)) \<and> k \<notin> fst ` set (links c) \<longrightarrow>
           links (snd (ttl_setitem c k v t)) = tl (links c) @ [(k, v, t + ttl c)])
     \<and> (\<forall>c k v e t. map_of (links c) k = Some (v, e) \<longrightarrow>
           links (snd (ttl_getitem c k t)) = filter (\<lambda>x. fst x \<noteq> k) (links c) @ [(k, v, e)])"
proof -
  let ?init = "initial_state m life"
  let ?fin = "fetches up rs ?init"
  have ne: "rs \<noteq> []" using count by auto
  have dr: "drop (length rs - m) (map request_key rs) = map request_key (tl rs)"
    using count by (simp add: drop_Suc drop_map [symmetric] map_tl)
  have two: "ttl_contains (request_cache ?fin) k (now ?fin) \<longleftrightarrow> k \<in> set (map request_key (tl rs))" for k
    using fetches_from_initial [OF up room keys fast, of k] dr by simp
  have dt: "distinct (map request_key (tl rs))" using keys ne by (cases rs) simp_all
  have "{k. ttl_contains (request_cache ?fin) k (now ?fin)} = set (map request_key (tl rs))"
    using two by blast
  moreover have "card (set (map request_key (tl rs))) = length (map request_key (tl rs))"
    using dt by (rule distinct_card)
  moreover have "length (map request_key (tl rs)) = m" using count by simp
  ultimately have three: "card {k. ttl_contains (request_cache ?fin) k (now ?fin)} = m"
    by (simp only:)
  have four: "ttl_contains (request_cache (fetches up (take j rs) ?init)) (request_key (hd rs))
                 (now (fetches up (take j rs) ?init))" if j: "0 < j \<and> j \<le> m" for j
  proof -
    have kj: "distinct (map request_key (take j rs))"
      using keys by (simp add: take_map [symmetric] distinct_take)
    have fj: "now (fetches up (take j rs) ?init) < life"
      using fast fetches_take_now [of up j rs ?init] by simp
    have "length (take j rs) \<le> j" by simp
    then have "length (take j rs) - m = 0" using j by linarith
    then have dj: "drop (length (take j rs) - m) (map request_key (take j rs)) = map request_key (take j rs)"
      by simp
    have "hd rs \<in> set (take j rs)" using j ne by (cases rs; cases j) simp_all
    then have "request_key (hd rs) \<in> set (map request_key (take j rs))" by simp
    then show ?thesis
      using fetches_from_initial [OF up room kj fj, of "request_key (hd rs)"] dj by simp
  qed
  have "request_key (hd rs) \<notin> set (map request_key (tl rs))"
    using keys ne by (cases rs) simp_all
  then have five: "\<not> ttl_contains (request_cache ?fin) (request_key (hd rs)) (now ?fin)"
    using two by simp
  have six: "links (snd (ttl_setitem c k v t)) = tl (links c) @ [(k, v, t + ttl c)]"
    if "length (links c) = maxsize c \<and> 0 < maxsize c
          \<and> (\<forall>x\<in>set (links c). t < snd (snd x)) \<and> k \<notin> fst ` set (links c)" for c k v t
    using that setitem_evicts_first by blast
  have seven: "links (snd (ttl_getitem c k t)) = filter (\<lambda>x. fst x \<noteq> k) (links c) @ [(k, v, e)]"
    if "map_of (links c) k = Some (v, e)" for c k v e t
    using that by (simp add: ttl_getitem_def move_to_end_def)
  have one: "\<forall>up' rs'. length (links (request_cache (fetches up' rs' ?init))) \<le> m"
    by (simp add: fetches_capacity)
  show ?thesis
    apply (intro conjI)
          apply (rule one)
         apply (intro allI, rule two)
        apply (rule three)
       apply (intro allI impI, erule four)
      apply (rule five)
     apply (intro allI impI, erule six)
    apply (intro allI impI, erule seven)
    done
qed


theorem cache_capacity_witness:
  "\<not> ttl_contains
       (request_cache (fetches (\<lambda>reqs. (1, Response 200 [] (Decoded PNone)))
          [(0, ''/a'', []), (0, ''/b'', []), (0, ''/c'', [])] (initial_state 2 60)))
       (get_cache_key ''/a'' [])
       (now (fetches (\<lambda>reqs. (1, Response 200 [] (Decoded PNone)))
          [(0, ''/a'', []), (0, ''/b'', []), (0, ''/c'', [])] (initial_state 2 60)))
   \<and> ttl_contains
       (request_cache (fetches (\<lambda>reqs. (1, Response 200 [] (Decoded PNone)))
          [(0, ''/a'', []), (0, ''/b'', []), (0, ''/c'', [])] (initial_state 2 60)))
       (get_cache_key ''/b'' [])
       (now (fetches (\<lambda>reqs. (1, Response 200 [] (Decoded PNone)))
          [(0, ''/a'', []), (0, ''/b'', []), (0, ''/c'', [])] (initial_state 2 60)))
   \<and> card {k. ttl_contains
       (request_cache (fetches (\<lambda>reqs. (1, Response 200 [] (Decoded PNone)))
          [(0, ''/a'', []), (0, ''/b'', []), (0, ''/c'', [])] (initial_state 2 60)))
       k
       (now (fetches (\<lambda>reqs. (1, Response 200 [] (Decoded PNone)))
          [(0, ''/a'', []), (0, ''/b'', []), (0, ''/c'', [])] (initial_state 2 60)))} = 2"
proof -
  let ?up = "\<lambda>reqs :: (string \<times> params) list. (1::nat, Response 200 [] (Decoded PNone))"
  let ?rs = "[(0::nat, ''/a'', [] :: params), (0, ''/b'', []), (0, ''/c'', [])]"
  have up: "always_answers ?up" by (simp add: always_answers_def is_success_def)
  have room: "0 < (2::nat)" by simp
  have keys: "distinct (map request_key ?rs)" by code_simp
  have count: "length ?rs = Suc 2" by simp
  have fast: "now (fetches ?up ?rs (initial_state 2 60)) < 60" by code_simp
  note t = cache_capacity [OF up room keys count fast]
  have a: "\<not> ttl_contains (request_cache (fetches ?up ?rs (initial_state 2 60))) (request_key (hd ?rs))
              (now (fetches ?up ?rs (initial_state 2 60)))"
    using t by blast
  have b: "ttl_contains (request_cache (fetches ?up ?rs (initial_state 2 60))) (request_key (0, ''/b'', []))
              (now (fetches ?up ?rs (initial_state 2 60)))
           \<longleftrightarrow> request_key (0, ''/b'', []) \<in> set (map request_key (tl ?rs))"
    using t by blast
  have c: "card {k. ttl_contains (request_cache (fetches ?up ?rs (initial_state 2 60))) k
              (now (fetches ?up ?rs (initial_state 2 60)))} = 2"
    using t by blast
  have ka: "request_key (hd ?rs) = get_cache_key ''/a'' []" by (simp add: request_key_def)
  have kb: "request_key (0, ''/b'', []) = get_cache_key ''/b'' []" by (simp add: request_key_def)
  have "request_key (0, ''/b'', []) \<in> set (map request_key (tl ?rs))" by simp
  then have b': "ttl_contains (request_cache (fetches ?up ?rs (initial_state 2 60))) (request_key (0, ''/b'', []))
              (now (fetches ?up ?rs (initial_state 2 60)))"
    using b by blast
  show ?thesis using a b' c unfolding ka kb by blast
qed

subsection \<open>The steps of a task\<close>

lemma release_frame [simp]: "tasks (release key s) = tasks s" "shared (release key s) = shared s"
  by (simp_all add: release_def split: list.splits)

lemma set_progress_frame [simp]:
  "shared (set_progress i p s) = shared s" "holders (set_progress i p s) = holders s"
  "waiting (set_progress i p s) = waiting s" "length (tasks (set_progress i p s)) = length (tasks s)"
  by (simp_all add: set_progress_def)


lemma set_progress_other:
  "j \<noteq> i \<Longrightarrow> tasks (set_progress i p s) ! j = tasks s ! j"
  by (simp add: set_progress_def)




lemma start_task_hit:
  assumes "ttl_contains (request_cache (shared s)) (task_key s i) (now (shared s))"
    and "map_of (links (request_cache (shared s))) (task_key s i) = Some (a, e)"
  shows "start_task i s = set_progress i (Finished (Inr a))
           (s\<lparr>shared := (shared s)\<lparr>request_cache := (request_cache (shared s))
                \<lparr>links := move_to_end (task_key s i) (links (request_cache (shared s)))\<rparr>\<rparr>\<rparr>)"
  using cached_lookup_hit [OF assms(1)] assms(2) by (auto simp: start_task_def)




end
